theory Spec2Isabelle
  imports
    Main
    "HOL-Library.AList"
    "HOL-Library.Char_ord"
    "HOL-Library.List_Lexorder"
    "HOL-Library.Product_Lexorder"
    "HOL-Library.Multiset"
begin

section \<open>The batch loader: \<open>Neo4jDriver.execute_batch\<close> (src/database/driver.py)\<close>

text \<open>
  The exceptions a write attempt can raise. The inner handler of \<open>execute_batch\<close> catches
  \<open>ServiceUnavailable\<close> and \<open>SessionExpired\<close>; every other exception leaves the retry loop.
  \<open>ValueError\<close> is what \<open>range(0, total, 0)\<close> raises. Opening the session and the logging
  are not modelled.
\<close>

datatype exn = ServiceUnavailable | SessionExpired | ValueError | OtherError string

definition retryable :: "exn \<Rightarrow> bool" where
  "retryable e = (e = ServiceUnavailable \<or> e = SessionExpired)"

text \<open>The counters of a result summary (\<open>summary.counters\<close>), and the dictionary \<open>overall\<close>.\<close>

record counters =
  nodes_created :: nat
  relationships_created :: nat
  properties_set :: nat

record totals =
  nodes :: nat
  rels :: nat
  props :: nat

text \<open>
  The target store is outside the program: \<open>session.execute_write(_batch_tx, chunk)\<close> either
  returns a summary or raises. A store is modelled by its answer to the \<open>n\<close>-th call of the
  load (counted from 0) for the chunk it is given.
\<close>

datatype outcome = Summary counters | Raises exn

type_synonym 'r store = "nat \<Rightarrow> 'r list \<Rightarrow> outcome"

text \<open>
  The state of one invocation: the running totals, and what the invocation has done so far:
  the number of write calls made, the seconds spent in \<open>time.sleep\<close>, the chunk passed to each
  write call, and the chunks whose write returned.
\<close>

record 'r run =
  overall :: totals
  calls :: nat
  slept :: nat
  attempted :: "'r list list"
  committed :: "'r list list"

definition start :: "'r run" where
  "start = \<lparr>overall = \<lparr>nodes = 0, rels = 0, props = 0\<rparr>, calls = 0, slept = 0,
            attempted = [], committed = []\<rparr>"

definition accumulate :: "counters \<Rightarrow> totals \<Rightarrow> totals" where
  "accumulate c t = \<lparr>nodes = nodes t + nodes_created c,
                      rels = rels t + relationships_created c,
                      props = props t + properties_set c\<rparr>"

text \<open>
  The inner loop, \<open>for attempt in range(MAX_RETRIES)\<close>: a returned summary is added to the
  totals and the loop is left (\<open>break\<close>); a retryable exception sleeps \<open>2 ** attempt\<close> seconds
  and is raised again when \<open>attempt == MAX_RETRIES - 1\<close>; any other exception propagates.
\<close>

function attempt_loop ::
  "nat \<Rightarrow> 'r store \<Rightarrow> 'r list \<Rightarrow> nat \<Rightarrow> 'r run \<Rightarrow> (exn + unit) \<times> 'r run" where
  "attempt_loop R env chunk attempt st =
     (if attempt < R then
        (let st1 = st\<lparr>calls := calls st + 1, attempted := attempted st @ [chunk]\<rparr> in
         case env (calls st) chunk of
           Summary c \<Rightarrow>
             (Inr (), st1\<lparr>overall := accumulate c (overall st1),
                          committed := committed st1 @ [chunk]\<rparr>)
         | Raises e \<Rightarrow>
             if retryable e then
               (let st2 = st1\<lparr>slept := slept st1 + 2 ^ attempt\<rparr> in
                if attempt = R - 1 then (Inl e, st2)
                else attempt_loop R env chunk (attempt + 1) st2)
             else (Inl e, st1))
      else (Inr (), st))"
  by pat_completeness auto
termination
  by (relation "measure (\<lambda>(R, env, chunk, attempt, st). R - attempt)") auto

text \<open>
  The outer loop, \<open>for i in range(0, total, CHUNK_SIZE)\<close> with
  \<open>chunk = batch[i:i + CHUNK_SIZE]\<close>. An exception of the inner loop ends it.
\<close>

function chunk_loop ::
  "nat \<Rightarrow> nat \<Rightarrow> 'r store \<Rightarrow> 'r list \<Rightarrow> nat \<Rightarrow> 'r run \<Rightarrow> (exn + unit) \<times> 'r run" where
  "chunk_loop W R env batch i st =
     (if 0 < W \<and> i < length batch then
        (case attempt_loop R env (take W (drop i batch)) 0 st of
           (Inl e, st') \<Rightarrow> (Inl e, st')
         | (Inr u, st') \<Rightarrow> chunk_loop W R env batch (i + W) st')
      else (Inr (), st))"
  by pat_completeness auto
termination
  by (relation "measure (\<lambda>(W, R, env, batch, i, st). length batch - i)") auto

text \<open>
  \<open>execute_batch\<close> with its two constants as parameters. The outer handler logs and raises
  again, so an exception is the result of the call; otherwise the totals are returned as a
  summary-like object.
\<close>

definition execute_batch_with ::
  "nat \<Rightarrow> nat \<Rightarrow> 'r store \<Rightarrow> 'r list \<Rightarrow> (exn + counters) \<times> 'r run" where
  "execute_batch_with W R env batch =
     (if W = 0 then (Inl ValueError, start)
      else
        (case chunk_loop W R env batch 0 start of
           (Inl e, st) \<Rightarrow> (Inl e, st)
         | (Inr u, st) \<Rightarrow>
             (Inr \<lparr>nodes_created = nodes (overall st),
                   relationships_created = rels (overall st),
                   properties_set = props (overall st)\<rparr>, st)))"

definition CHUNK_SIZE :: nat where
  "CHUNK_SIZE = 10000"

definition MAX_RETRIES :: nat where
  "MAX_RETRIES = 3"

definition execute_batch :: "'r store \<Rightarrow> 'r list \<Rightarrow> (exn + counters) \<times> 'r run" where
  "execute_batch = execute_batch_with CHUNK_SIZE MAX_RETRIES"

text \<open>
  The state at the head of the outer loop once the chunks \<open>0, ..., j - 1\<close> are committed,
  that is, the state in which the load reaches chunk \<open>j\<close>: \<open>None\<close> when an earlier chunk
  ended the load or the list has fewer than \<open>j\<close> chunks. It is read off the two loops
  above.
\<close>

fun loop_head :: "nat \<Rightarrow> nat \<Rightarrow> 'r store \<Rightarrow> 'r list \<Rightarrow> nat \<Rightarrow> 'r run option" where
  "loop_head W R env batch 0 = Some start"
| "loop_head W R env batch (Suc j) =
     (case loop_head W R env batch j of
        None \<Rightarrow> None
      | Some st \<Rightarrow>
          if 0 < W \<and> j * W < length batch then
            (case attempt_loop R env (take W (drop (j * W) batch)) 0 st of
               (Inl e, st') \<Rightarrow> None
             | (Inr u, st') \<Rightarrow> Some st')
          else None)"

section \<open>The bulk builder: src/database/build_bulk.py\<close>

subsection \<open>JSON values and Python's operations on them\<close>

text \<open>
  \<open>data = json.load(...)\<close> is a list of JSON objects. The values of the three fields the
  script reads are identifiers or null: \<open>null\<close>, an integer or a string (the upstream
  generate_batch.py writes integers and \<open>null\<close>). A string is the list of its bytes.
  An object is a finite map from keys to values; \<open>None\<close> means that the key is absent.
  Booleans, floating-point numbers, arrays and objects as field values are outside the model.
\<close>

datatype jval = JNull | JInt int | JStr string

type_synonym event = "string \<rightharpoonup> jval"

datatype py_error = KeyError jval | TypeError

text \<open>Sequencing: a raised exception ends the computation.\<close>

definition bind :: "py_error + 'a \<Rightarrow> ('a \<Rightarrow> py_error + 'r) \<Rightarrow> py_error + 'r" where
  "bind m f = (case m of Inl err \<Rightarrow> Inl err | Inr x \<Rightarrow> f x)"

text \<open>\<open>r[k]\<close> raises \<open>KeyError\<close> when the key is absent; \<open>r.get(k)\<close> is \<open>None\<close> then.\<close>

definition getitem :: "event \<Rightarrow> string \<Rightarrow> py_error + jval" where
  "getitem r k = (case r k of None \<Rightarrow> Inl (KeyError (JStr k)) | Some v \<Rightarrow> Inr v)"

definition dict_get :: "event \<Rightarrow> string \<Rightarrow> jval" where
  "dict_get r k = (case r k of None \<Rightarrow> JNull | Some v \<Rightarrow> v)"

text \<open>The truth value of \<open>if v:\<close>: \<open>None\<close>, \<open>0\<close> and the empty string are false.\<close>

fun truthy :: "jval \<Rightarrow> bool" where
  "truthy JNull = False"
| "truthy (JInt i) = (i \<noteq> 0)"
| "truthy (JStr s) = (s \<noteq> [])"

text \<open>\<open>str(v)\<close> and the \<open>{i}\<close> of an f-string: decimal digits for an integer.\<close>

fun str_nat :: "nat \<Rightarrow> string" where
  "str_nat n = (if n < 10 then [''0123456789'' ! n]
                else str_nat (n div 10) @ [''0123456789'' ! (n mod 10)])"

definition str_int :: "int \<Rightarrow> string" where
  "str_int i = (if i < 0 then CHR ''-'' # str_nat (nat (- i)) else str_nat (nat i))"

fun py_str :: "jval \<Rightarrow> string" where
  "py_str JNull = ''None''"
| "py_str (JInt i) = str_int i"
| "py_str (JStr s) = s"

text \<open>
  \<open>sorted(s)\<close> of a set. Python orders integers by value and strings by code point (for
  UTF-8 bytes, the order of the byte lists); comparing an integer with a string, or anything
  with \<open>None\<close>, raises \<open>TypeError\<close>, and a list of at most one element is sorted without a
  comparison. A Python set is modelled as a duplicate-free list, whose order has no meaning:
  \<open>s.add(x)\<close> is \<open>List.insert x s\<close>.
\<close>

fun is_int :: "jval \<Rightarrow> bool" where
  "is_int (JInt i) = True"
| "is_int v = False"

fun is_str :: "jval \<Rightarrow> bool" where
  "is_str (JStr s) = True"
| "is_str v = False"

fun sort_rank :: "jval \<Rightarrow> nat \<times> int \<times> string" where
  "sort_rank JNull = (0, 0, [])"
| "sort_rank (JInt i) = (1, i, [])"
| "sort_rank (JStr s) = (2, 0, s)"

definition comparable :: "jval list \<Rightarrow> bool" where
  "comparable xs = (length xs \<le> 1 \<or> list_all is_int xs \<or> list_all is_str xs)"

definition sorted_py :: "jval list \<Rightarrow> py_error + jval list" where
  "sorted_py xs = (if comparable xs then Inr (sort_key sort_rank xs) else Inl TypeError)"

text \<open>
  \<open>{x: i for i, x in enumerate(xs)}\<close>, a dictionary as an association list in insertion
  order, and \<open>d[x]\<close> on it.
\<close>

definition index_map :: "'a list \<Rightarrow> ('a \<times> nat) list" where
  "index_map xs = map (\<lambda>(i, x). (x, i)) (List.enumerate 0 xs)"

definition lookup :: "(jval \<times> nat) list \<Rightarrow> jval \<Rightarrow> py_error + nat" where
  "lookup d x = (case map_of d x of None \<Rightarrow> Inl (KeyError x) | Some i \<Rightarrow> Inr i)"

text \<open>A \<open>for\<close> loop over a list whose body updates a state or raises.\<close>

fun for_each :: "('a \<Rightarrow> 's \<Rightarrow> 'e + 's) \<Rightarrow> 'a list \<Rightarrow> 's \<Rightarrow> 'e + 's" where
  "for_each body [] s = Inr s"
| "for_each body (x # xs) s =
     (case body x s of Inl e \<Rightarrow> Inl e | Inr s' \<Rightarrow> for_each body xs s')"

subsection \<open>Identity assignment and aggregation\<close>

text \<open>Lines 15 to 19: the body of the loop that collects the item identifiers.\<close>

definition items_step :: "event \<Rightarrow> jval list \<Rightarrow> py_error + jval list" where
  "items_step r items =
     bind (getitem r ''item_id'') (\<lambda>item.
       let items1 = List.insert item items in
       if truthy (dict_get r ''next_item_id'') then
         bind (getitem r ''next_item_id'') (\<lambda>nxt. Inr (List.insert nxt items1))
       else Inr items1)"

text \<open>
  Lines 29 to 40: \<open>next_agg\<close> is a \<open>defaultdict\<close>, so that \<open>next_agg[k]\<close> inserts the
  default entry for a key it does not have. An entry is a dictionary with the keys
  \<open>weight\<close> and \<open>sessions\<close>.
\<close>

record edge =
  weight :: nat
  sessions :: "string list"

type_synonym agg = "((nat \<times> nat) \<times> edge) list"

definition default_edge :: edge where
  "default_edge = \<lparr>weight = 0, sessions = []\<rparr>"

definition touch :: "nat \<times> nat \<Rightarrow> agg \<Rightarrow> agg" where
  "touch k next_agg = AList.map_default k default_edge id next_agg"

definition bump_weight :: "nat \<times> nat \<Rightarrow> agg \<Rightarrow> agg" where
  "bump_weight k next_agg =
     AList.map_entry k (\<lambda>e. e\<lparr>weight := weight e + 1\<rparr>) (touch k next_agg)"

definition add_session :: "nat \<times> nat \<Rightarrow> string \<Rightarrow> agg \<Rightarrow> agg" where
  "add_session k s next_agg =
     AList.map_entry k (\<lambda>e. e\<lparr>sessions := List.insert s (sessions e)\<rparr>) (touch k next_agg)"

definition next_step :: "(jval \<times> nat) list \<Rightarrow> event \<Rightarrow> agg \<Rightarrow> py_error + agg" where
  "next_step id_map r next_agg =
     (if truthy (dict_get r ''next_item_id'') then
        bind (getitem r ''item_id'') (\<lambda>item.
        bind (lookup id_map item) (\<lambda>i1.
        bind (getitem r ''next_item_id'') (\<lambda>nxt.
        bind (lookup id_map nxt) (\<lambda>i2.
          let k = (i1, i2); agg1 = bump_weight k next_agg in
          if truthy (dict_get r ''session_id'') then
            bind (getitem r ''session_id'') (\<lambda>sid. Inr (add_session k (py_str sid) agg1))
          else Inr agg1))))
      else Inr next_agg)"

text \<open>Line 47: the set comprehension over the session identifiers.\<close>

definition sessions_step :: "event \<Rightarrow> jval list \<Rightarrow> py_error + jval list" where
  "sessions_step r acc =
     (if truthy (dict_get r ''session_id'') then
        bind (getitem r ''session_id'') (\<lambda>sid. Inr (List.insert sid acc))
      else Inr acc)"

text \<open>Lines 50 to 55: the containment pairs.\<close>

definition contains_step ::
  "(jval \<times> nat) list \<Rightarrow> (jval \<times> nat) list \<Rightarrow> event \<Rightarrow> (nat \<times> nat) list \<Rightarrow>
   py_error + (nat \<times> nat) list" where
  "contains_step session_map id_map r contains =
     (if truthy (dict_get r ''session_id'') then
        bind (getitem r ''session_id'') (\<lambda>sid.
        bind (lookup session_map sid) (\<lambda>s.
        bind (getitem r ''item_id'') (\<lambda>item.
        bind (lookup id_map item) (\<lambda>i.
          Inr (List.insert (s, i) contains)))))
      else Inr contains)"

text \<open>The values the script has computed when it starts to write (lines 15 to 55).\<close>

record graph =
  items_list :: "jval list"
  id_map :: "(jval \<times> nat) list"
  next_agg :: agg
  sessions_list :: "jval list"
  session_map :: "(jval \<times> nat) list"
  contains :: "(nat \<times> nat) list"

definition build :: "event list \<Rightarrow> py_error + graph" where
  "build data =
     bind (for_each items_step data []) (\<lambda>items.
     bind (sorted_py items) (\<lambda>il.
       let im = index_map il in
     bind (for_each (next_step im) data []) (\<lambda>na.
     bind (for_each sessions_step data []) (\<lambda>ss.
     bind (sorted_py ss) (\<lambda>sl.
       let sm = index_map sl in
     bind (for_each (contains_step sm im) data []) (\<lambda>cs.
       Inr \<lparr>items_list = il, id_map = im, next_agg = na,
            sessions_list = sl, session_map = sm, contains = cs\<rparr>))))))"

subsection \<open>The export\<close>

text \<open>
  Lines 64 to 89. A file opened for writing is the text written so far, and \<open>f.write(s)\<close>
  appends to it. \<open>sep.join(xs)\<close> puts the separator between the elements; nothing is
  escaped. The rows of \<open>next.csv\<close> follow \<open>next_agg.items()\<close>; the iteration order of a
  Python set (the evidence of an edge, the containment pairs) is the order of the list that
  models the set.
\<close>

definition tab :: char where
  "tab = CHR 0x09"

definition nl :: char where
  "nl = CHR 0x0A"

definition f_write :: "string \<Rightarrow> string \<Rightarrow> string" where
  "f_write s f = f @ s"

fun join :: "string \<Rightarrow> string list \<Rightarrow> string" where
  "join sep [] = []"
| "join sep [x] = x"
| "join sep (x # y # ys) = x @ sep @ join sep (y # ys)"

definition items_csv :: "graph \<Rightarrow> string" where
  "items_csv g =
     fold (\<lambda>i. f_write (str_nat i @ [tab] @ ''Item'' @ [nl])) [0..<length (items_list g)]
       (f_write ('':ID(Item)'' @ [tab] @ '':LABEL'' @ [nl]) [])"


definition next_row :: "(nat \<times> nat) \<times> edge \<Rightarrow> string" where
  "next_row = (\<lambda>((i1, i2), v).
     str_nat i1 @ [tab] @ str_nat i2 @ [tab] @ str_nat (weight v) @ [tab] @
     join '';'' (sessions v) @ [nl])"

definition next_csv :: "graph \<Rightarrow> string" where
  "next_csv g =
     fold (\<lambda>entry. f_write (next_row entry)) (next_agg g)
       (f_write ('':START_ID(Item)'' @ [tab] @ '':END_ID(Item)'' @ [tab] @ ''weight:int'' @ [tab] @
                 ''sessions:string[]'' @ [nl]) [])"



text \<open>
  Lines 92 to 96: \<open>json.dump\<close> of the two dictionaries. The text of the JSON document is
  not modelled, only the document: an object has string keys, and \<open>json.dump\<close> writes a
  dictionary key that is an integer as its digits and the key \<open>None\<close> as \<open>null\<close>.
\<close>

fun json_key :: "jval \<Rightarrow> string" where
  "json_key (JStr s) = s"
| "json_key (JInt i) = str_int i"
| "json_key JNull = ''null''"

record lookup_index =
  item_to_id :: "(string \<times> nat) list"
  session_to_id :: "(string \<times> nat) list"

definition lookup_json :: "graph \<Rightarrow> lookup_index" where
  "lookup_json g =
     \<lparr>item_to_id = map (\<lambda>(x, i). (json_key x, i)) (id_map g),
      session_to_id = map (\<lambda>(x, i). (json_key x, i)) (session_map g)\<rparr>"


section \<open>Notions for stating the claims\<close>

text \<open>
  The values of a field over the events that have it; the
  item identifiers and the session identifiers the script collects (a \<open>next_item_id\<close> or
  \<open>session_id\<close> counts when it is truthy).
\<close>

definition field_values :: "string \<Rightarrow> event list \<Rightarrow> jval list" where
  "field_values k data = List.map_filter (\<lambda>r. r k) data"

definition item_idents :: "event list \<Rightarrow> jval set" where
  "item_idents data =
     set (field_values ''item_id'' data) \<union> set (filter truthy (field_values ''next_item_id'' data))"

definition session_idents :: "event list \<Rightarrow> jval set" where
  "session_idents data = set (filter truthy (field_values ''session_id'' data))"

text \<open>
  The inputs on which the script raises nothing: every event has an \<open>item_id\<close>, and the
  item identifiers, and the session identifiers, can be sorted.
\<close>

definition well_formed :: "event list \<Rightarrow> bool" where
  "well_formed data \<longleftrightarrow>
     list_all (\<lambda>r. r ''item_id'' \<noteq> None) data \<and>
     comparable (remdups (field_values ''item_id'' data @ filter truthy (field_values ''next_item_id'' data))) \<and>
     comparable (remdups (filter truthy (field_values ''session_id'' data)))"

text \<open>The identifiers in order of first occurrence.\<close>

definition item_list :: "event list \<Rightarrow> jval list" where
  "item_list data = remdups (field_values ''item_id'' data @ filter truthy (field_values ''next_item_id'' data))"

definition session_list :: "event list \<Rightarrow> jval list" where
  "session_list data = remdups (filter truthy (field_values ''session_id'' data))"

text \<open>
  The ordered pair of dense item IDs of an event with a truthy \<open>next_item_id\<close>, and the
  (session, item) pair of dense IDs of an event with a truthy \<open>session_id\<close>.
\<close>

definition event_key :: "(jval \<times> nat) list \<Rightarrow> event \<Rightarrow> (nat \<times> nat) option" where
  "event_key idm r =
     (if truthy (dict_get r ''next_item_id'') then
        (case map_of idm (dict_get r ''item_id'') of
           None \<Rightarrow> None
         | Some a \<Rightarrow>
             (case map_of idm (dict_get r ''next_item_id'') of
                None \<Rightarrow> None
              | Some b \<Rightarrow> Some (a, b)))
      else None)"

definition event_pair ::
  "(jval \<times> nat) list \<Rightarrow> (jval \<times> nat) list \<Rightarrow> event \<Rightarrow> (nat \<times> nat) option" where
  "event_pair sm idm r =
     (if truthy (dict_get r ''session_id'') then
        (case map_of sm (dict_get r ''session_id'') of
           None \<Rightarrow> None
         | Some s \<Rightarrow>
             (case map_of idm (dict_get r ''item_id'') of
                None \<Rightarrow> None
              | Some i \<Rightarrow> Some (s, i)))
      else None)"

text \<open>
  What the bodies of the second and the third loop do to their state when nothing is
  raised.
\<close>

definition agg_step :: "(jval \<times> nat) list \<Rightarrow> event \<Rightarrow> agg \<Rightarrow> agg" where
  "agg_step idm r a =
     (case event_key idm r of
        None \<Rightarrow> a
      | Some k \<Rightarrow>
          if truthy (dict_get r ''session_id'')
          then add_session k (py_str (dict_get r ''session_id'')) (bump_weight k a)
          else bump_weight k a)"

definition pair_step ::
  "(jval \<times> nat) list \<Rightarrow> (jval \<times> nat) list \<Rightarrow> event \<Rightarrow> (nat \<times> nat) list \<Rightarrow>
   (nat \<times> nat) list" where
  "pair_step sm idm r cs =
     (case event_pair sm idm r of None \<Rightarrow> cs | Some p \<Rightarrow> List.insert p cs)"

text \<open>
  Reading \<open>next_agg\<close>: the weight and the evidence set of an edge (0 and empty for a pair
  that is no key), the sum of all weights, and that every evidence list is duplicate-free.
\<close>

definition weight_of :: "agg \<Rightarrow> nat \<times> nat \<Rightarrow> nat" where
  "weight_of a k = (case map_of a k of None \<Rightarrow> 0 | Some e \<Rightarrow> weight e)"

definition evidence_of :: "agg \<Rightarrow> nat \<times> nat \<Rightarrow> string set" where
  "evidence_of a k = (case map_of a k of None \<Rightarrow> {} | Some e \<Rightarrow> set (sessions e))"

definition total_weight :: "agg \<Rightarrow> nat" where
  "total_weight a = sum_list (map (\<lambda>(k, e). weight e) a)"

definition deduplicated :: "agg \<Rightarrow> bool" where
  "deduplicated a = list_all (\<lambda>(k, e). distinct (sessions e)) a"

text \<open>Python's \<open><\<close> on two identifiers, where it is defined.\<close>

fun less_py :: "jval \<Rightarrow> jval \<Rightarrow> bool" where
  "less_py (JInt a) (JInt b) = (a < b)"
| "less_py (JStr s) (JStr t) = (s < t)"
| "less_py x y = False"

text \<open>
  The identifier set and the counts in the words of the specification, which speak of a
  field that is not null where the script tests the truth value.
\<close>

definition claimed_item_idents :: "event list \<Rightarrow> jval set" where
  "claimed_item_idents data =
     set (field_values ''item_id'' data) \<union>
     set (filter (\<lambda>v. v \<noteq> JNull) (field_values ''next_item_id'' data))"

definition count_non_null :: "string \<Rightarrow> event list \<Rightarrow> nat" where
  "count_non_null k data = length (filter (\<lambda>r. dict_get r k \<noteq> JNull) data)"

text \<open>The header lines in the words of the specification, and the first line of a text.\<close>

definition spec_items_header :: string where
  "spec_items_header = ''ID'' @ [tab] @ ''LABEL''"

definition spec_next_header :: string where
  "spec_next_header =
     ''START_ID'' @ [tab] @ ''END_ID'' @ [tab] @ ''weight:int'' @ [tab] @ ''sessions:string[]''"

definition first_line :: "string \<Rightarrow> string" where
  "first_line s = takeWhile (\<lambda>c. c \<noteq> nl) s"


section \<open>Reading the files back\<close>


















section \<open>Stores and inputs of the concrete runs\<close>

text \<open>Stores for the concrete runs below: one that answers from a script, one that always commits.\<close>

definition scripted :: "outcome list \<Rightarrow> char store" where
  "scripted answers n chunk =
     (if n < length answers then answers ! n else Raises (OtherError ''unscripted''))"

definition always_ok :: "char store" where
  "always_ok n chunk = Summary \<lparr>nodes_created = length chunk, relationships_created = 0,
                                properties_set = 0\<rparr>"

definition wrote2 :: counters where
  "wrote2 = \<lparr>nodes_created = 2, relationships_created = 1, properties_set = 0\<rparr>"

definition after_ab :: "char run" where
  "after_ab = \<lparr>overall = \<lparr>nodes = 2, rels = 1, props = 0\<rparr>, calls = 1, slept = 0,
               attempted = [''ab''], committed = [''ab'']\<rparr>"



definition script_fatal :: "outcome list" where
  "script_fatal = [Summary wrote2, Raises ServiceUnavailable,
                   Raises (OtherError ''ConstraintError''), Summary wrote2]"

text \<open>The events of the specification's scenario.\<close>

definition ev :: "jval \<Rightarrow> jval \<Rightarrow> jval \<Rightarrow> event" where
  "ev s i n = [''session_id'' \<mapsto> s, ''item_id'' \<mapsto> i, ''next_item_id'' \<mapsto> n]"

definition scenario :: "event list" where
  "scenario = [ev (JInt 1) (JInt 10) (JInt 20), ev (JInt 1) (JInt 20) JNull,
               ev (JInt 2) (JInt 10) (JInt 30)]"

definition scenario_graph :: graph where
  "scenario_graph =
     \<lparr>items_list = [JInt 10, JInt 20, JInt 30],
      id_map = [(JInt 10, 0), (JInt 20, 1), (JInt 30, 2)],
      next_agg = [((0, 1), \<lparr>weight = 1, sessions = [''1'']\<rparr>),
                  ((0, 2), \<lparr>weight = 1, sessions = [''2'']\<rparr>)],
      sessions_list = [JInt 1, JInt 2],
      session_map = [(JInt 1, 0), (JInt 2, 1)],
      contains = [(1, 0), (0, 1), (0, 0)]\<rparr>"

definition no_item :: "event list" where
  "no_item = [ev (JInt 1) (JInt 10) (JInt 20), [''session_id'' \<mapsto> JInt 1]]"

text \<open>An input whose only event has the \<open>item_id\<close> \<open>null\<close>, and the same with the string \<open>null\<close>.\<close>

definition null_item :: "event list" where
  "null_item = [[''item_id'' \<mapsto> JNull]]"

definition null_item_graph :: graph where
  "null_item_graph = \<lparr>items_list = [JNull], id_map = [(JNull, 0)], next_agg = [],
                       sessions_list = [], session_map = [], contains = []\<rparr>"



definition falsy_next :: event where
  "falsy_next = [''session_id'' \<mapsto> JInt 1, ''item_id'' \<mapsto> JInt 10, ''next_item_id'' \<mapsto> JInt 0]"

definition falsy_session :: event where
  "falsy_session = [''session_id'' \<mapsto> JStr [], ''item_id'' \<mapsto> JInt 10,
                    ''next_item_id'' \<mapsto> JInt 20]"

text \<open>Inputs in which an identifier is \<open>0\<close>.\<close>

definition zero_next :: "event list" where
  "zero_next = [[''item_id'' \<mapsto> JInt 5, ''next_item_id'' \<mapsto> JInt 0]]"

definition zero_next_graph :: graph where
  "zero_next_graph = \<lparr>items_list = [JInt 5], id_map = [(JInt 5, 0)], next_agg = [],
                       sessions_list = [], session_map = [], contains = []\<rparr>"

definition zero_item :: "event list" where
  "zero_item = [ev (JInt 1) (JInt 7) (JInt 0), ev (JInt 1) (JInt 0) JNull]"

definition zero_item_graph :: graph where
  "zero_item_graph =
     \<lparr>items_list = [JInt 0, JInt 7], id_map = [(JInt 0, 0), (JInt 7, 1)], next_agg = [],
      sessions_list = [JInt 1], session_map = [(JInt 1, 0)], contains = [(0, 0), (0, 1)]\<rparr>"

definition zero_ids :: "event list" where
  "zero_ids = [[''session_id'' \<mapsto> JInt 0, ''item_id'' \<mapsto> JInt 7, ''next_item_id'' \<mapsto> JInt 0]]"

definition zero_ids_graph :: graph where
  "zero_ids_graph = \<lparr>items_list = [JInt 7], id_map = [(JInt 7, 0)], next_agg = [],
                      sessions_list = [], session_map = [], contains = []\<rparr>"













section \<open>The batch loader: one attempt sequence\<close>

declare attempt_loop.simps [simp del] chunk_loop.simps [simp del]

lemma backoff_sum_shift:
  "(\<Sum>j<Suc k. (2::nat) ^ (a + j)) = 2 ^ a + (\<Sum>j<k. 2 ^ Suc (a + j))"
  by (simp add: sum.lessThan_Suc_shift del: sum.lessThan_Suc)

lemma attempt_loop_Summary:
  "a < R \<Longrightarrow> env (calls st) chunk = Summary c \<Longrightarrow>
   attempt_loop R env chunk a st =
     (Inr (), st\<lparr>calls := calls st + 1, attempted := attempted st @ [chunk],
                 overall := accumulate c (overall st),
                 committed := committed st @ [chunk]\<rparr>)"
  by (simp add: attempt_loop.simps [of R env chunk a st])

lemma attempt_loop_retry:
  "Suc a < R \<Longrightarrow> env (calls st) chunk = Raises e \<Longrightarrow> retryable e \<Longrightarrow>
   attempt_loop R env chunk a st =
     attempt_loop R env chunk (Suc a)
       (st\<lparr>calls := calls st + 1, attempted := attempted st @ [chunk],
           slept := slept st + 2 ^ a\<rparr>)"
  by (auto simp add: attempt_loop.simps [of R env chunk a st] Let_def)

lemma attempt_loop_last:
  "Suc a = R \<Longrightarrow> env (calls st) chunk = Raises e \<Longrightarrow> retryable e \<Longrightarrow>
   attempt_loop R env chunk a st =
     (Inl e, st\<lparr>calls := calls st + 1, attempted := attempted st @ [chunk],
                slept := slept st + 2 ^ a\<rparr>)"
  by (auto simp add: attempt_loop.simps [of R env chunk a st] Let_def)

lemma attempt_loop_fatal:
  "a < R \<Longrightarrow> env (calls st) chunk = Raises e \<Longrightarrow> \<not> retryable e \<Longrightarrow>
   attempt_loop R env chunk a st =
     (Inl e, st\<lparr>calls := calls st + 1, attempted := attempted st @ [chunk]\<rparr>)"
  by (simp add: attempt_loop.simps [of R env chunk a st])


lemma attempt_loop_fatal_after:
  "a + k < R \<Longrightarrow>
   (\<And>j. j < k \<Longrightarrow> \<exists>e. env (calls st + j) chunk = Raises e \<and> retryable e) \<Longrightarrow>
   env (calls st + k) chunk = Raises e \<Longrightarrow> \<not> retryable e \<Longrightarrow>
   attempt_loop R env chunk a st =
     (Inl e, st\<lparr>calls := calls st + k + 1,
                attempted := attempted st @ replicate (k + 1) chunk,
                slept := slept st + (\<Sum>j<k. 2 ^ (a + j))\<rparr>)"
proof (induction k arbitrary: a st)
  case 0
  then show ?case
    by (simp add: attempt_loop_fatal)
next
  case (Suc k)
  from Suc.prems(2) [of 0] obtain e' where e: "env (calls st) chunk = Raises e'" "retryable e'"
    by auto
  let ?st2 = "st\<lparr>calls := calls st + 1, attempted := attempted st @ [chunk],
                 slept := slept st + 2 ^ a\<rparr>"
  have step: "attempt_loop R env chunk a st = attempt_loop R env chunk (Suc a) ?st2"
    using Suc.prems(1) e by (simp add: attempt_loop_retry)
  have "attempt_loop R env chunk (Suc a) ?st2 =
     (Inl e, ?st2\<lparr>calls := calls ?st2 + k + 1,
                 attempted := attempted ?st2 @ replicate (k + 1) chunk,
                 slept := slept ?st2 + (\<Sum>j<k. 2 ^ (Suc a + j))\<rparr>)"
  proof (rule Suc.IH)
    show "Suc a + k < R" using Suc.prems(1) by simp
    show "\<exists>e. env (calls ?st2 + j) chunk = Raises e \<and> retryable e" if "j < k" for j
      using Suc.prems(2) [of "Suc j"] that by simp
    show "env (calls ?st2 + k) chunk = Raises e"
      using Suc.prems(3) by simp
    show "\<not> retryable e" by fact
  qed
  then show ?case
    unfolding step by (simp add: backoff_sum_shift del: sum.lessThan_Suc power_Suc)
qed


section \<open>The batch loader: the chunk loop\<close>

lemma chunk_loop_done:
  "\<not> i < length batch \<Longrightarrow> chunk_loop W R env batch i st = (Inr (), st)"
  by (simp add: chunk_loop.simps [of W R env batch i st])

lemma chunk_loop_next:
  "0 < W \<Longrightarrow> i < length batch \<Longrightarrow>
   attempt_loop R env (take W (drop i batch)) 0 st = (Inr u, st') \<Longrightarrow>
   chunk_loop W R env batch i st = chunk_loop W R env batch (i + W) st'"
  by (simp add: chunk_loop.simps [of W R env batch i st])

lemma chunk_loop_abort:
  "0 < W \<Longrightarrow> i < length batch \<Longrightarrow>
   attempt_loop R env (take W (drop i batch)) 0 st = (Inl e, st') \<Longrightarrow>
   chunk_loop W R env batch i st = (Inl e, st')"
  by (simp add: chunk_loop.simps [of W R env batch i st])

lemma loop_head_chunk_loop:
  "loop_head W R env batch j = Some st \<Longrightarrow>
   chunk_loop W R env batch 0 start = chunk_loop W R env batch (j * W) st"
proof (induction j arbitrary: st)
  case 0
  then show ?case by simp
next
  case (Suc j)
  from Suc.prems obtain st0 u where st0: "loop_head W R env batch j = Some st0"
    and W: "0 < W" and j: "j * W < length batch"
    and a: "attempt_loop R env (take W (drop (j * W) batch)) 0 st0 = (Inr u, st)"
    by (auto split: option.splits if_splits prod.splits sum.splits)
  have "chunk_loop W R env batch 0 start = chunk_loop W R env batch (j * W) st0"
    using st0 by (rule Suc.IH)
  also have "\<dots> = chunk_loop W R env batch (j * W + W) st"
    using W j a by (rule chunk_loop_next)
  finally show ?case by (simp add: add.commute)
qed

lemma attempt_loop_committed:
  "attempt_loop R env chunk a st = (res, st') \<Longrightarrow>
   committed st' = (case res of Inl e \<Rightarrow> committed st
                    | Inr u \<Rightarrow> if a < R then committed st @ [chunk] else committed st)"
proof (induction R env chunk a st rule: attempt_loop.induct)
  case (1 R env chunk attempt st)
  show ?case
  proof (cases "attempt < R")
    case False
    with "1.prems" show ?thesis
      by (simp add: attempt_loop.simps [of R env chunk attempt st])
  next
    case True
    show ?thesis
    proof (cases "env (calls st) chunk")
      case (Summary c)
      with True "1.prems" show ?thesis
        by (auto simp add: attempt_loop_Summary)
    next
      case (Raises e)
      show ?thesis
      proof (cases "retryable e")
        case False
        with True Raises "1.prems" show ?thesis
          by (auto simp add: attempt_loop_fatal)
      next
        case r: True
        show ?thesis
        proof (cases "Suc attempt = R")
          case True
          with r Raises "1.prems" show ?thesis
            by (auto simp add: attempt_loop_last)
        next
          case False
          with True have lt: "Suc attempt < R" by simp
          let ?st1 = "st\<lparr>calls := calls st + 1, attempted := attempted st @ [chunk]\<rparr>"
          let ?st2 = "?st1\<lparr>slept := slept ?st1 + 2 ^ attempt\<rparr>"
          have "attempt_loop R env chunk (attempt + 1) ?st2 = (res, st')"
            using "1.prems" attempt_loop_retry [of attempt R env st chunk e] lt Raises r by simp
          from "1.IH" [OF True refl Raises r refl _ this] False True lt
          show ?thesis by (simp split: sum.splits)
        qed
      qed
    qed
  qed
qed

lemma ceil_div_step:
  assumes W: "0 < W" and i: "i < N"
  shows "(N - i + W - 1) div W = Suc ((N - (i + W) + W - 1) div W)"
proof -
  have a: "N - i + W - 1 = (N - i - 1) + W" using i by simp
  have b: "((N - i - 1) + W) div W = Suc ((N - i - 1) div W)"
    using div_add_self2 [of W "N - i - 1"] W by simp
  show ?thesis
  proof (cases "i + W \<le> N")
    case True
    then have c: "N - (i + W) + W - 1 = N - i - 1" using W by simp
    show ?thesis by (simp only: a b c)
  next
    case False
    then have c: "(N - (i + W) + W - 1) div W = 0" and d: "(N - i - 1) div W = 0"
      using W i by simp_all
    show ?thesis by (simp only: a b c d)
  qed
qed

lemma chunk_loop_committed:
  "0 < W \<Longrightarrow> 0 < R \<Longrightarrow> chunk_loop W R env batch i st = (res, st') \<Longrightarrow>
   \<exists>m \<le> (length batch - i + W - 1) div W.
     committed st' = committed st @ map (\<lambda>j. take W (drop (i + j * W) batch)) [0..<m] \<and>
     (res = Inr () \<longrightarrow> m = (length batch - i + W - 1) div W)"
proof (induction W R env batch i st rule: chunk_loop.induct)
  case (1 W R env batch i st)
  let ?n = "\<lambda>i. (length batch - i + W - 1) div W"
  let ?slice = "\<lambda>i j. take W (drop (i + j * W) batch)"
  show ?case
  proof (cases "i < length batch")
    case False
    then have "?n i = 0" using "1.prems"(1) by simp
    moreover have "res = Inr ()" "st' = st"
      using False "1.prems"(3) by (simp_all add: chunk_loop_done)
    ultimately show ?thesis by simp
  next
    case True
    obtain r1 st1 where a: "attempt_loop R env (take W (drop i batch)) 0 st = (r1, st1)"
      by (cases "attempt_loop R env (take W (drop i batch)) 0 st")
    have n: "?n i = Suc (?n (i + W))"
      using "1.prems"(1) True by (rule ceil_div_step)
    show ?thesis
    proof (cases r1)
      case (Inl e)
      with a "1.prems" True have "res = Inl e" "st' = st1"
        by (simp_all add: chunk_loop_abort)
      moreover have "committed st1 = committed st"
        using attempt_loop_committed [OF a] Inl by simp
      ultimately show ?thesis
        by (intro exI [of _ 0]) simp
    next
      case (Inr u)
      have c1: "committed st1 = committed st @ [take W (drop i batch)]"
        using attempt_loop_committed [OF a] Inr "1.prems"(2) by simp
      have next_eq: "chunk_loop W R env batch (i + W) st1 = (res, st')"
        using a Inr "1.prems" True by (simp add: chunk_loop_next)
      from "1.IH" [OF _ a [symmetric] Inr "1.prems"(1,2) next_eq] "1.prems"(1) True
      obtain m where m: "m \<le> ?n (i + W)"
        "committed st' = committed st1 @ map (?slice (i + W)) [0..<m]"
        "res = Inr () \<longrightarrow> m = ?n (i + W)"
        by auto
      have "map (?slice i) [0..<Suc m] = take W (drop i batch) # map (?slice (i + W)) [0..<m]"
        by (simp add: upt_conv_Cons map_Suc_upt [symmetric] ac_simps del: upt_Suc)
      with m c1 n show ?thesis
        by (intro exI [of _ "Suc m"]) simp
    qed
  qed
qed

lemma div_qc: "c < (W::nat) \<Longrightarrow> (q * W + c) div W = q"
  by simp

lemma ceil_div_eq:
  assumes W: "0 < (W::nat)"
  shows "(N + W - 1) div W = (if N mod W = 0 then N div W else Suc (N div W))"
proof -
  define r where "r = N mod W"
  define q where "q = N div W"
  have N: "N = q * W + r" by (simp add: q_def r_def)
  have r: "r < W" using W by (simp add: r_def)
  show ?thesis
  proof (cases "r = 0")
    case True
    have "N + W - 1 = q * W + (W - 1)" using N True W by simp
    moreover have "(q * W + (W - 1)) div W = q" using W by (intro div_qc) simp
    ultimately have "(N + W - 1) div W = q" by (simp only:)
    then show ?thesis using True by (simp add: r_def q_def)
  next
    case False
    have "N + W - 1 = Suc q * W + (r - 1)" using N False by simp
    moreover have "(Suc q * W + (r - 1)) div W = Suc q" using r by (intro div_qc) simp
    ultimately have "(N + W - 1) div W = Suc q" by (simp only:)
    then show ?thesis using False by (simp add: r_def q_def)
  qed
qed

lemma ceil_mult_ge: 
  assumes "0 < (W::nat)" shows "N \<le> ((N + W - 1) div W) * W"
proof -
  have "N mod W < W" using assms by simp
  then have "N \<le> W + N div W * W"
    by (simp add: dividend_less_times_div less_or_eq_imp_le mult.commute)
  moreover have "N mod W = 0 \<Longrightarrow> N = N div W * W" by auto
  ultimately show ?thesis
    unfolding ceil_div_eq [OF assms]
    by (cases "N mod W = 0") simp_all
qed

lemma slices_concat:
  "concat (map (\<lambda>j. take W (drop (j * W) xs)) [0..<n]) = take (n * W) xs"
proof (induction n)
  case 0
  show ?case by simp
next
  case (Suc n)
  have "take (n * W + W) xs = take (n * W) xs @ take W (drop (n * W) xs)"
    by (rule take_add)
  with Suc show ?case by (simp add: add.commute)
qed

lemma slice_length_inner:
  assumes W: "0 < W" and j: "Suc j < (length xs + W - 1) div W"
  shows "length (take W (drop (j * W) xs)) = W"
proof -
  have "Suc j \<le> length xs div W"
    using j unfolding ceil_div_eq [OF W] by (simp split: if_splits)
  then have "Suc j * W \<le> length xs div W * W"
    by (rule mult_le_mono1)
  also have "\<dots> \<le> length xs" by simp
  finally show ?thesis by simp
qed

lemma slice_length_last:
  assumes W: "0 < W" and j: "Suc j = (length xs + W - 1) div W"
  shows "length (take W (drop (j * W) xs)) =
         (if length xs mod W = 0 then W else length xs mod W)"
proof (cases "length xs mod W = 0")
  case True
  then have "Suc j = length xs div W"
    using j unfolding ceil_div_eq [OF W] by simp
  then have "length xs = Suc j * W" using True by auto
  then show ?thesis using True by simp
next
  case False
  then have "j = length xs div W"
    using j unfolding ceil_div_eq [OF W] by simp
  then have "length xs - j * W = length xs mod W"
    by (simp add: minus_div_mult_eq_mod)
  moreover have "length xs mod W < W" using W by simp
  ultimately show ?thesis using False by simp
qed

section \<open>The batch loader: claims\<close>

lemma execute_batch_defaults: "execute_batch env batch = execute_batch_with 10000 3 env batch"
  by (simp add: execute_batch_def CHUNK_SIZE_def MAX_RETRIES_def)

lemma run_abcde:
  "execute_batch_with 2 3 always_ok ''abcde'' =
    (Inr \<lparr>nodes_created = 5, relationships_created = 0, properties_set = 0\<rparr>,
     \<lparr>overall = \<lparr>nodes = 5, rels = 0, props = 0\<rparr>, calls = 3, slept = 0,
      attempted = [''ab'', ''cd'', ''e''], committed = [''ab'', ''cd'', ''e'']\<rparr>)"
  by (simp add: execute_batch_with_def chunk_loop.simps attempt_loop.simps always_ok_def
      start_def accumulate_def)

lemma head1_scripted:
  "loop_head 2 3 (scripted (Summary wrote2 # rest)) ''abcde'' (Suc 0) = Some after_ab"
  by (simp add: attempt_loop.simps scripted_def start_def accumulate_def after_ab_def
      wrote2_def)

text \<open>
  Claim C5. With window size \<open>W\<close> and a list of \<open>N\<close> records, the chunks are the slices
  \<open>batch[j*W : j*W + W]\<close> for \<open>j < ceil(N/W)\<close> (written \<open>(N + W - 1) div W\<close>):
  contiguous, in order, their concatenation is the list, and every one has \<open>W\<close> records
  but the last, which has \<open>N mod W\<close>, or \<open>W\<close> when \<open>N mod W = 0\<close>. Every call commits
  the first \<open>m\<close> of them in order, and a call that returns has committed all \<open>ceil(N/W)\<close>.
  The window and the retry bound are positive, as the constants 10000 and 3 of the source
  are.
\<close>

theorem execute_batch_chunks:
  assumes W: "0 < W" and R: "0 < R"
    and run: "execute_batch_with W R env batch = (res, st)"
  shows
    "(\<exists>m \<le> (length batch + W - 1) div W.
        committed st = map (\<lambda>j. take W (drop (j * W) batch)) [0..<m] \<and>
        ((\<exists>c. res = Inr c) \<longrightarrow> m = (length batch + W - 1) div W)) \<and>
     concat (map (\<lambda>j. take W (drop (j * W) batch)) [0..<(length batch + W - 1) div W]) =
       batch \<and>
     (\<forall>j < (length batch + W - 1) div W.
        length (take W (drop (j * W) batch)) =
          (if Suc j < (length batch + W - 1) div W then W
           else if length batch mod W = 0 then W else length batch mod W)) \<and>
     ((\<exists>c. res = Inr c) \<longrightarrow>
        committed st =
          map (\<lambda>j. take W (drop (j * W) batch)) [0..<(length batch + W - 1) div W] \<and>
        length (committed st) = (length batch + W - 1) div W \<and>
        concat (committed st) = batch)"
proof -
  let ?n = "(length batch + W - 1) div W"
  let ?slice = "\<lambda>j. take W (drop (j * W) batch)"
  obtain r where loop: "chunk_loop W R env batch 0 start = (r, st)"
    and res: "(\<exists>c. res = Inr c) \<longleftrightarrow> r = Inr ()"
    using run W
    by (cases "chunk_loop W R env batch 0 start")
      (auto simp add: execute_batch_with_def split: sum.splits)
  from chunk_loop_committed [OF W R loop]
  obtain m where m: "m \<le> ?n" "committed st = map ?slice [0..<m]" "r = Inr () \<longrightarrow> m = ?n"
    by (auto simp add: start_def)
  have "concat (map ?slice [0..<?n]) = take (?n * W) batch"
    by (rule slices_concat)
  then have cat: "concat (map ?slice [0..<?n]) = batch"
    using ceil_mult_ge [OF W, of "length batch"] by simp
  have sizes: "length (?slice j) =
      (if Suc j < ?n then W else if length batch mod W = 0 then W else length batch mod W)"
    if "j < ?n" for j
  proof (cases "Suc j < ?n")
    case True
    then show ?thesis
      using slice_length_inner [OF W True] by simp
  next
    case False
    with that have "Suc j = ?n" by simp
    from slice_length_last [OF W this] False show ?thesis
      by simp
  qed
  have 1: "\<exists>m \<le> ?n. committed st = map ?slice [0..<m] \<and> ((\<exists>c. res = Inr c) \<longrightarrow> m = ?n)"
    using m res by blast
  have 4: "committed st = map ?slice [0..<?n] \<and> length (committed st) = ?n \<and>
      concat (committed st) = batch" if "\<exists>c. res = Inr c"
    using that m res cat by simp
  from 1 cat sizes 4 show ?thesis by (intro conjI allI impI) blast+
qed

text \<open>The scenario of the specification: window 2 and the records \<open>a, b, c, d, e\<close>.\<close>

theorem execute_batch_chunks_witness:
  "(0::nat) < 2 \<and> (0::nat) < 3 \<and>
   fst (execute_batch_with 2 3 always_ok ''abcde'') =
     Inr \<lparr>nodes_created = 5, relationships_created = 0, properties_set = 0\<rparr> \<and>
   committed (snd (execute_batch_with 2 3 always_ok ''abcde'')) = [''ab'', ''cd'', ''e''] \<and>
   length (committed (snd (execute_batch_with 2 3 always_ok ''abcde''))) = (5 + 2 - 1) div 2 \<and>
   concat (committed (snd (execute_batch_with 2 3 always_ok ''abcde''))) = ''abcde'' \<and>
   length (take 2 (drop (2 * 2) ''abcde'')) = 5 mod 2"
proof -
  have W: "(0::nat) < 2" and R: "(0::nat) < 3" by simp_all
  note c = execute_batch_chunks [OF W R run_abcde]
  let ?st = "snd (execute_batch_with 2 3 always_ok ''abcde'')"
  have "\<exists>c. Inr \<lparr>nodes_created = 5, relationships_created = 0, properties_set = 0\<rparr> =
      (Inr c :: exn + counters)"
    by blast
  with c have "committed
        \<lparr>overall = \<lparr>nodes = 5, rels = 0, props = 0\<rparr>, calls = 3, slept = 0,
           attempted = [''ab'', ''cd'', ''e''], committed = [''ab'', ''cd'', ''e'']\<rparr> =
      map (\<lambda>j. take 2 (drop (j * 2) ''abcde'')) [0..<(length ''abcde'' + 2 - 1) div 2]"
    by blast
  then have "committed ?st =
      map (\<lambda>j. take 2 (drop (j * 2) ''abcde'')) [0..<(length ''abcde'' + 2 - 1) div 2]"
    by (simp only: run_abcde snd_conv)
  then have "committed ?st = [''ab'', ''cd'', ''e'']"
    by (simp add: upt_conv_Cons)
  then show ?thesis
    by (simp add: run_abcde)
qed



text \<open>
  Claim C4. Let the load reach chunk \<open>j\<close> in state \<open>st\<close>. If, after \<open>k < MAX_RETRIES\<close>
  retryable failures on this chunk (possibly none), the next attempt raises an exception
  that is not retryable, then the whole call ends with that exception (the specification's
  \<open>LoadFailed\<close>; it is not a success value, so no counters are returned): that attempt is the
  last write call of the load, nothing is slept after it, the chunk is not committed, and no
  later chunk is reached.
\<close>

theorem fatal_fault_aborts:
  assumes head: "loop_head W R env batch j = Some st"
    and j: "j * W < length batch" and W: "0 < W"
    and chunk: "chunk = take W (drop (j * W) batch)"
    and k: "k < R"
    and before: "\<forall>i<k. \<exists>e. env (calls st + i) chunk = Raises e \<and> retryable e"
    and fatal: "env (calls st + k) chunk = Raises e" "\<not> retryable e"
  shows "\<exists>st'. execute_batch_with W R env batch = (Inl e, st') \<and>
           calls st' = calls st + k + 1 \<and>
           attempted st' = attempted st @ replicate (k + 1) chunk \<and>
           slept st' = slept st + (\<Sum>i<k. 2 ^ i) \<and>
           committed st' = committed st \<and>
           overall st' = overall st \<and>
           loop_head W R env batch (Suc j) = None"
proof -
  let ?st' = "st\<lparr>calls := calls st + k + 1,
                 attempted := attempted st @ replicate (k + 1) chunk,
                 slept := slept st + (\<Sum>i<k. 2 ^ (0 + i))\<rparr>"
  have al: "attempt_loop R env chunk 0 st = (Inl e, ?st')"
    using k before fatal by (intro attempt_loop_fatal_after) auto
  have "chunk_loop W R env batch 0 start = chunk_loop W R env batch (j * W) st"
    using head by (rule loop_head_chunk_loop)
  also have "\<dots> = (Inl e, ?st')"
    using W j al unfolding chunk by (rule chunk_loop_abort)
  finally have "execute_batch_with W R env batch = (Inl e, ?st')"
    using W by (simp add: execute_batch_with_def)
  moreover have "loop_head W R env batch (Suc j) = None"
    using head j W al chunk by simp
  ultimately show ?thesis
    by (intro exI [of _ ?st']) simp
qed

theorem fatal_fault_aborts_witness:
  "loop_head 2 3 (scripted script_fatal) ''abcde'' 1 = Some after_ab \<and>
   scripted script_fatal 1 ''cd'' = Raises ServiceUnavailable \<and>
   retryable ServiceUnavailable \<and>
   scripted script_fatal 2 ''cd'' = Raises (OtherError ''ConstraintError'') \<and>
   \<not> retryable (OtherError ''ConstraintError'') \<and>
   (\<exists>st'. execute_batch_with 2 3 (scripted script_fatal) ''abcde'' =
            (Inl (OtherError ''ConstraintError''), st') \<and>
          calls st' = 3 \<and> attempted st' = [''ab'', ''cd'', ''cd''] \<and> slept st' = 1 \<and>
          committed st' = [''ab''] \<and> overall st' = \<lparr>nodes = 2, rels = 1, props = 0\<rparr>)"
proof -
  let ?e = "OtherError ''ConstraintError''"
  have h: "loop_head 2 3 (scripted script_fatal) ''abcde'' 1 = Some after_ab"
    using head1_scripted by (simp add: script_fatal_def)
  have j: "1 * 2 < length ''abcde''" and W: "(0::nat) < 2"
    and chunk: "''cd'' = take 2 (drop (1 * 2) ''abcde'')" and k: "(1::nat) < 3"
    by simp_all
  have f: "scripted script_fatal 1 ''cd'' = Raises ServiceUnavailable"
    "scripted script_fatal 2 ''cd'' = Raises ?e"
    and r: "retryable ServiceUnavailable" "\<not> retryable ?e"
    by (simp_all add: scripted_def script_fatal_def retryable_def)
  have before: "\<forall>i<1. \<exists>e. scripted script_fatal (calls after_ab + i) ''cd'' = Raises e \<and>
      retryable e"
    by (simp add: scripted_def script_fatal_def retryable_def after_ab_def)
  have fatal: "scripted script_fatal (calls after_ab + 1) ''cd'' = Raises ?e"
    by (simp add: scripted_def script_fatal_def after_ab_def)
  from fatal_fault_aborts [OF h j W chunk k before fatal r(2)]
  obtain s where s: "execute_batch_with 2 3 (scripted script_fatal) ''abcde'' = (Inl ?e, s)"
    "calls s = calls after_ab + 1 + 1"
    "attempted s = attempted after_ab @ replicate (1 + 1) ''cd''"
    "slept s = slept after_ab + (\<Sum>i<1. 2 ^ i)"
    "committed s = committed after_ab"
    "overall s = overall after_ab"
    by auto
  have "calls s = 3" "attempted s = [''ab'', ''cd'', ''cd'']" "slept s = 1"
    "committed s = [''ab'']" "overall s = \<lparr>nodes = 2, rels = 1, props = 0\<rparr>"
    using s(2-6) by (simp_all add: after_ab_def)
  with s(1) have "\<exists>st'. execute_batch_with 2 3 (scripted script_fatal) ''abcde'' =
            (Inl ?e, st') \<and>
          calls st' = 3 \<and> attempted st' = [''ab'', ''cd'', ''cd''] \<and> slept st' = 1 \<and>
          committed st' = [''ab''] \<and> overall st' = \<lparr>nodes = 2, rels = 1, props = 0\<rparr>"
    by blast
  with h f r show ?thesis by simp
qed

section \<open>The bulk builder: the loops\<close>

lemma bind_Inr [simp]: "bind (Inr x) f = f x"
  and bind_Inl [simp]: "bind (Inl e) f = Inl e"
  by (simp_all add: bind_def)

lemma getitem_Some: "r k = Some v \<Longrightarrow> getitem r k = Inr v"
  by (simp add: getitem_def)

lemma getitem_truthy: "truthy (dict_get r k) \<Longrightarrow> getitem r k = Inr (dict_get r k)"
  by (cases "r k") (simp_all add: getitem_def dict_get_def)

lemma truthy_dict_get: "truthy (dict_get r k) \<longleftrightarrow> (\<exists>v. r k = Some v \<and> truthy v)"
  by (cases "r k") (simp_all add: dict_get_def)

lemma set_field_values: "set (field_values k data) = {v. \<exists>r \<in> set data. r k = Some v}"
  by (induction data) (auto simp add: field_values_def split: option.splits)

lemma item_idents_Nil [simp]: "item_idents [] = {}"
  by (simp add: item_idents_def field_values_def)

lemma item_idents_Cons:
  "item_idents (r # data) =
     (case r ''item_id'' of None \<Rightarrow> {} | Some v \<Rightarrow> {v}) \<union>
     (if truthy (dict_get r ''next_item_id'') then {dict_get r ''next_item_id''} else {}) \<union>
     item_idents data"
  by (cases "r ''item_id''"; cases "r ''next_item_id''")
    (auto simp add: item_idents_def field_values_def dict_get_def)

lemma session_idents_Nil [simp]: "session_idents [] = {}"
  by (simp add: session_idents_def field_values_def)

lemma session_idents_Cons:
  "session_idents (r # data) =
     (if truthy (dict_get r ''session_id'') then {dict_get r ''session_id''} else {}) \<union>
     session_idents data"
  by (cases "r ''session_id''")
    (auto simp add: session_idents_def field_values_def dict_get_def)

lemma for_each_append:
  "for_each body (xs @ ys) s = bind (for_each body xs s) (for_each body ys)"
  by (induction xs arbitrary: s) (simp_all split: sum.splits)

lemma for_each_cong:
  "(\<And>x s. x \<in> set xs \<Longrightarrow> f x s = g x s) \<Longrightarrow> for_each f xs s = for_each g xs s"
  by (induction xs arbitrary: s) (simp_all split: sum.splits)

lemma for_each_total:
  "(\<And>x s. x \<in> set xs \<Longrightarrow> body x s = Inr (g x s)) \<Longrightarrow> for_each body xs s = Inr (fold g xs s)"
  by (induction xs arbitrary: s) simp_all

lemma items_step_KeyError:
  "r ''item_id'' = None \<Longrightarrow> items_step r items = Inl (KeyError (JStr ''item_id''))"
  by (simp add: items_step_def getitem_def)

lemma items_step_ok:
  "r ''item_id'' = Some v \<Longrightarrow>
   items_step r items =
     Inr (if truthy (dict_get r ''next_item_id'')
          then List.insert (dict_get r ''next_item_id'') (List.insert v items)
          else List.insert v items)"
  by (simp add: items_step_def getitem_Some getitem_truthy)

lemma collect_items_fail:
  "\<exists>r \<in> set data. r ''item_id'' = None \<Longrightarrow>
   for_each items_step data acc = Inl (KeyError (JStr ''item_id''))"
proof (induction data arbitrary: acc)
  case Nil
  then show ?case by simp
next
  case (Cons r data)
  show ?case
  proof (cases "r ''item_id''")
    case None
    then show ?thesis by (simp add: items_step_KeyError)
  next
    case (Some v)
    with Cons.prems have "\<exists>r \<in> set data. r ''item_id'' = None" by auto
    then show ?thesis using Some by (simp add: items_step_ok Cons.IH)
  qed
qed

lemma collect_items_ok:
  "\<forall>r \<in> set data. r ''item_id'' \<noteq> None \<Longrightarrow>
   \<exists>xs. for_each items_step data acc = Inr xs \<and> set xs = set acc \<union> item_idents data \<and>
        (distinct acc \<longrightarrow> distinct xs)"
proof (induction data arbitrary: acc)
  case Nil
  then show ?case by simp
next
  case (Cons r data)
  then obtain v where v: "r ''item_id'' = Some v" by auto
  let ?acc = "if truthy (dict_get r ''next_item_id'')
          then List.insert (dict_get r ''next_item_id'') (List.insert v acc)
          else List.insert v acc"
  from Cons.prems have "\<forall>r \<in> set data. r ''item_id'' \<noteq> None" by simp
  from Cons.IH [OF this, of ?acc] obtain xs where
    xs: "for_each items_step data ?acc = Inr xs" "set xs = set ?acc \<union> item_idents data"
      "distinct ?acc \<longrightarrow> distinct xs"
    by blast
  have "for_each items_step (r # data) acc = Inr xs"
    using v xs(1) by (simp add: items_step_ok)
  moreover have "set xs = set acc \<union> item_idents (r # data)"
    using xs(2) v by (auto simp add: item_idents_Cons)
  moreover have "distinct acc \<longrightarrow> distinct xs"
    using xs(3) by simp
  ultimately show ?case by blast
qed

lemma inj_sort_rank: "inj sort_rank"
proof (rule injI)
  fix x y
  assume "sort_rank x = sort_rank y"
  then show "x = y" by (cases x; cases y) simp_all
qed

lemma comparable_set:
  assumes "distinct xs" "distinct ys" "set xs = set ys"
  shows "comparable xs = comparable ys"
proof -
  have "length xs = length ys"
    using assms by (metis distinct_card)
  then show ?thesis
    using assms(3) by (simp add: comparable_def list_all_iff)
qed

lemma sort_rank_unique:
  assumes "distinct xs" "distinct ys" "set xs = set ys"
  shows "sort_key sort_rank xs = sort_key sort_rank ys"
proof -
  have "map sort_rank (sort_key sort_rank xs) = map sort_rank (sort_key sort_rank ys)"
  proof (rule sorted_distinct_set_unique)
    show "sorted (map sort_rank (sort_key sort_rank xs))"
      and "sorted (map sort_rank (sort_key sort_rank ys))"
      by simp_all
    show "distinct (map sort_rank (sort_key sort_rank xs))"
      using assms(1) by (simp add: distinct_map inj_sort_rank [THEN inj_on_subset])
    show "distinct (map sort_rank (sort_key sort_rank ys))"
      using assms(2) by (simp add: distinct_map inj_sort_rank [THEN inj_on_subset])
    show "set (map sort_rank (sort_key sort_rank xs)) = set (map sort_rank (sort_key sort_rank ys))"
      using assms(3) by simp
  qed
  then show ?thesis
    using inj_sort_rank by simp
qed

lemma sorted_py_unique:
  "distinct xs \<Longrightarrow> distinct ys \<Longrightarrow> set xs = set ys \<Longrightarrow> sorted_py xs = sorted_py ys"
  by (simp add: sorted_py_def comparable_set [of xs ys] sort_rank_unique [of xs ys])

lemma sorted_py_Inr:
  "sorted_py xs = Inr ys \<Longrightarrow>
   set ys = set xs \<and> length ys = length xs \<and> (distinct xs \<longrightarrow> distinct ys) \<and>
   sorted (map sort_rank ys) \<and> comparable xs"
  by (auto simp add: sorted_py_def split: if_splits)

lemma index_map_zip: "index_map xs = zip xs [0..<length xs]"
  by (simp add: index_map_def enumerate_eq_zip zip_map1 [symmetric] zip_commute [of xs]
      split_def map_prod_def [symmetric] del: )

lemma map_of_index_map_nth:
  "distinct xs \<Longrightarrow> i < length xs \<Longrightarrow> map_of (index_map xs) (xs ! i) = Some i"
  using map_of_zip_nth [of xs "[0..<length xs]" i] by (simp add: index_map_zip)

lemma map_of_index_map_None: "map_of (index_map xs) x = None \<longleftrightarrow> x \<notin> set xs"
  by (simp add: index_map_zip)

lemma map_of_index_map_Some:
  "map_of (index_map xs) x = Some i \<Longrightarrow> i < length xs \<and> xs ! i = x"
  by (auto simp add: index_map_zip in_set_zip dest!: map_of_SomeD)

lemma lookup_Some: "map_of d x = Some i \<Longrightarrow> lookup d x = Inr i"
  by (simp add: lookup_def)

lemma touch_map_of:
  "map_of (touch k a) = (map_of a)(k := case map_of a k of None \<Rightarrow> Some default_edge | Some e \<Rightarrow> Some e)"
  by (simp add: touch_def map_of_map_default split: option.splits cong: option.case_cong)

lemma weight_of_bump:
  "weight_of (bump_weight k a) k' = weight_of a k' + (if k' = k then 1 else 0)"
  by (simp add: weight_of_def bump_weight_def map_of_map_entry touch_map_of default_edge_def
      split: option.splits)

lemma evidence_of_bump: "evidence_of (bump_weight k a) k' = evidence_of a k'"
  by (simp add: evidence_of_def bump_weight_def map_of_map_entry touch_map_of default_edge_def
      split: option.splits)

lemma weight_of_add_session: "weight_of (add_session k s a) k' = weight_of a k'"
  by (simp add: weight_of_def add_session_def map_of_map_entry touch_map_of default_edge_def
      split: option.splits)

lemma evidence_of_add_session:
  "evidence_of (add_session k s a) k' = evidence_of a k' \<union> (if k' = k then {s} else {})"
  by (simp add: evidence_of_def add_session_def map_of_map_entry touch_map_of default_edge_def
      split: option.splits)

lemma keys_bump: "fst ` set (bump_weight k a) = insert k (fst ` set a)"
  by (simp add: bump_weight_def touch_def dom_map_entry dom_map_default)

lemma keys_add_session: "fst ` set (add_session k s a) = insert k (fst ` set a)"
  by (simp add: add_session_def touch_def dom_map_entry dom_map_default)

lemma distinct_bump: "distinct (map fst a) \<Longrightarrow> distinct (map fst (bump_weight k a))"
  by (simp add: bump_weight_def touch_def distinct_map_entry distinct_map_default)

lemma distinct_add_session: "distinct (map fst a) \<Longrightarrow> distinct (map fst (add_session k s a))"
  by (simp add: add_session_def touch_def distinct_map_entry distinct_map_default)

lemma total_weight_bump: "total_weight (bump_weight k a) = Suc (total_weight a)"
  by (induction a)
    (auto simp add: total_weight_def bump_weight_def touch_def default_edge_def)

lemma total_weight_add_session: "total_weight (add_session k s a) = total_weight a"
  by (induction a)
    (auto simp add: total_weight_def add_session_def touch_def default_edge_def)

lemma deduplicated_bump: "deduplicated a \<Longrightarrow> deduplicated (bump_weight k a)"
  by (induction a)
    (auto simp add: deduplicated_def bump_weight_def touch_def default_edge_def)

lemma deduplicated_add_session: "deduplicated a \<Longrightarrow> deduplicated (add_session k s a)"
  by (induction a)
    (auto simp add: deduplicated_def add_session_def touch_def default_edge_def)

lemma next_step_agg_step:
  assumes "r ''item_id'' \<noteq> None"
    and "truthy (dict_get r ''next_item_id'') \<longrightarrow> event_key im r \<noteq> None"
  shows "next_step im r a = Inr (agg_step im r a)"
proof (cases "truthy (dict_get r ''next_item_id'')")
  case False
  then show ?thesis by (simp add: next_step_def agg_step_def event_key_def)
next
  case True
  from assms(1) obtain v where v: "r ''item_id'' = Some v" by auto
  then have dv: "dict_get r ''item_id'' = v" by (simp add: dict_get_def)
  from True assms(2) obtain i1 i2 where k: "map_of im v = Some i1"
    "map_of im (dict_get r ''next_item_id'') = Some i2"
    by (auto simp add: event_key_def dv split: option.splits)
  then have "event_key im r = Some (i1, i2)"
    using True by (simp add: event_key_def dv)
  then show ?thesis
    using True v k
    by (simp add: next_step_def agg_step_def getitem_Some getitem_truthy lookup_Some Let_def)
qed

lemma agg_step_weight:
  "weight_of (agg_step im r a) k = weight_of a k + (if event_key im r = Some k then 1 else 0)"
  by (auto simp add: agg_step_def weight_of_bump weight_of_add_session split: option.splits)

lemma agg_step_evidence:
  "evidence_of (agg_step im r a) k =
     evidence_of a k \<union>
     (if event_key im r = Some k \<and> truthy (dict_get r ''session_id'')
      then {py_str (dict_get r ''session_id'')} else {})"
  by (auto simp add: agg_step_def evidence_of_bump evidence_of_add_session split: option.splits)

lemma agg_step_keys:
  "fst ` set (agg_step im r a) =
     fst ` set a \<union> (case event_key im r of None \<Rightarrow> {} | Some k \<Rightarrow> {k})"
  by (auto simp add: agg_step_def keys_bump keys_add_session split: option.splits)

lemma agg_step_distinct: "distinct (map fst a) \<Longrightarrow> distinct (map fst (agg_step im r a))"
  by (auto simp add: agg_step_def distinct_bump distinct_add_session split: option.splits)

lemma agg_step_deduplicated: "deduplicated a \<Longrightarrow> deduplicated (agg_step im r a)"
  by (auto simp add: agg_step_def deduplicated_bump deduplicated_add_session
      split: option.splits)

lemma agg_step_total:
  "total_weight (agg_step im r a) =
     total_weight a + (if event_key im r = None then 0 else 1)"
  by (auto simp add: agg_step_def total_weight_bump total_weight_add_session
      split: option.splits)

lemma fold_agg_step_weight:
  "weight_of (fold (agg_step im) data a) k =
     weight_of a k + length (filter (\<lambda>r. event_key im r = Some k) data)"
  by (induction data arbitrary: a) (simp_all add: agg_step_weight)

lemma fold_agg_step_evidence:
  "evidence_of (fold (agg_step im) data a) k =
     evidence_of a k \<union>
     (\<lambda>r. py_str (dict_get r ''session_id'')) `
       {r \<in> set data. event_key im r = Some k \<and> truthy (dict_get r ''session_id'')}"
  by (induction data arbitrary: a) (auto simp add: agg_step_evidence)

lemma fold_agg_step_keys:
  "fst ` set (fold (agg_step im) data a) =
     fst ` set a \<union> {k. \<exists>r \<in> set data. event_key im r = Some k}"
  by (induction data arbitrary: a) (auto simp add: agg_step_keys split: option.splits)

lemma fold_agg_step_distinct:
  "distinct (map fst a) \<Longrightarrow> distinct (map fst (fold (agg_step im) data a))"
  by (induction data arbitrary: a) (simp_all add: agg_step_distinct)

lemma fold_agg_step_deduplicated:
  "deduplicated a \<Longrightarrow> deduplicated (fold (agg_step im) data a)"
  by (induction data arbitrary: a) (simp_all add: agg_step_deduplicated)

lemma fold_agg_step_total:
  "total_weight (fold (agg_step im) data a) =
     total_weight a + length (filter (\<lambda>r. event_key im r \<noteq> None) data)"
  by (induction data arbitrary: a) (simp_all add: agg_step_total)

lemma sessions_step_total:
  "sessions_step r acc =
     Inr (if truthy (dict_get r ''session_id'')
          then List.insert (dict_get r ''session_id'') acc else acc)"
  by (simp add: sessions_step_def getitem_truthy)

lemma collect_sessions:
  "\<exists>xs. for_each sessions_step data acc = Inr xs \<and>
        set xs = set acc \<union> session_idents data \<and> (distinct acc \<longrightarrow> distinct xs)"
proof (induction data arbitrary: acc)
  case Nil
  show ?case by simp
next
  case (Cons r data)
  let ?acc = "if truthy (dict_get r ''session_id'')
          then List.insert (dict_get r ''session_id'') acc else acc"
  from Cons.IH [of ?acc] obtain xs where
    xs: "for_each sessions_step data ?acc = Inr xs" "set xs = set ?acc \<union> session_idents data"
      "distinct ?acc \<longrightarrow> distinct xs"
    by blast
  have "for_each sessions_step (r # data) acc = Inr xs"
    using xs(1) by (simp add: sessions_step_total)
  moreover have "set xs = set acc \<union> session_idents (r # data)"
    using xs(2) by (auto simp add: session_idents_Cons)
  moreover have "distinct acc \<longrightarrow> distinct xs"
    using xs(3) by simp
  ultimately show ?case by blast
qed

lemma contains_step_pair_step:
  assumes "r ''item_id'' \<noteq> None"
    and "truthy (dict_get r ''session_id'') \<longrightarrow> event_pair sm im r \<noteq> None"
  shows "contains_step sm im r cs = Inr (pair_step sm im r cs)"
proof (cases "truthy (dict_get r ''session_id'')")
  case False
  then show ?thesis by (simp add: contains_step_def pair_step_def event_pair_def)
next
  case True
  from assms(1) obtain v where v: "r ''item_id'' = Some v" by auto
  then have dv: "dict_get r ''item_id'' = v" by (simp add: dict_get_def)
  from True assms(2) obtain s i where k: "map_of sm (dict_get r ''session_id'') = Some s"
    "map_of im v = Some i"
    by (auto simp add: event_pair_def dv split: option.splits)
  then have "event_pair sm im r = Some (s, i)"
    using True by (simp add: event_pair_def dv)
  then show ?thesis
    using True v k
    by (simp add: contains_step_def pair_step_def getitem_Some getitem_truthy lookup_Some)
qed

lemma fold_pair_step_set:
  "set (fold (pair_step sm im) data cs) =
     set cs \<union> {p. \<exists>r \<in> set data. event_pair sm im r = Some p}"
  by (induction data arbitrary: cs) (auto simp add: pair_step_def split: option.splits)

lemma fold_pair_step_distinct:
  "distinct cs \<Longrightarrow> distinct (fold (pair_step sm im) data cs)"
  by (induction data arbitrary: cs) (simp_all add: pair_step_def split: option.splits)

lemma event_key_covered:
  assumes "r \<in> set data" "r ''item_id'' \<noteq> None" "set il = item_idents data"
    "truthy (dict_get r ''next_item_id'')"
  shows "event_key (index_map il) r \<noteq> None"
proof -
  from assms(2) obtain v where v: "r ''item_id'' = Some v" by auto
  then have dv: "dict_get r ''item_id'' = v" by (simp add: dict_get_def)
  from assms(4) obtain n where n: "r ''next_item_id'' = Some n" "truthy n"
    by (auto simp add: truthy_dict_get)
  then have dn: "dict_get r ''next_item_id'' = n" by (simp add: dict_get_def)
  have "v \<in> set il" "n \<in> set il"
    using assms(1,3) v n by (auto simp add: item_idents_def set_field_values)
  then have "map_of (index_map il) v \<noteq> None" "map_of (index_map il) n \<noteq> None"
    by (simp_all add: map_of_index_map_None)
  then show ?thesis
    using assms(4) by (auto simp add: event_key_def dv dn)
qed

lemma event_pair_covered:
  assumes "r \<in> set data" "r ''item_id'' \<noteq> None" "set il = item_idents data"
    "set sl = session_idents data" "truthy (dict_get r ''session_id'')"
  shows "event_pair (index_map sl) (index_map il) r \<noteq> None"
proof -
  from assms(2) obtain v where v: "r ''item_id'' = Some v" by auto
  then have dv: "dict_get r ''item_id'' = v" by (simp add: dict_get_def)
  from assms(5) obtain n where n: "r ''session_id'' = Some n" "truthy n"
    by (auto simp add: truthy_dict_get)
  then have dn: "dict_get r ''session_id'' = n" by (simp add: dict_get_def)
  have "v \<in> set il" "n \<in> set sl"
    using assms(1,3,4) v n by (auto simp add: item_idents_def session_idents_def set_field_values)
  then have "map_of (index_map il) v \<noteq> None" "map_of (index_map sl) n \<noteq> None"
    by (simp_all add: map_of_index_map_None)
  then show ?thesis
    using assms(5) by (auto simp add: event_pair_def dv dn)
qed

lemma set_item_list: "set (item_list data) = item_idents data"
  by (simp add: item_list_def item_idents_def)

lemma distinct_item_list: "distinct (item_list data)"
  by (simp add: item_list_def)

lemma distinct_session_list: "distinct (session_list data)"
  by (simp add: session_list_def)

lemma set_session_list: "set (session_list data) = session_idents data"
  by (simp add: session_list_def session_idents_def)

lemma build_char:
  "build data =
     (if \<not> list_all (\<lambda>r. r ''item_id'' \<noteq> None) data then Inl (KeyError (JStr ''item_id''))
      else if \<not> comparable (item_list data) then Inl TypeError
      else if \<not> comparable (session_list data) then Inl TypeError
      else
        (let il = sort_key sort_rank (item_list data); im = index_map il;
             sl = sort_key sort_rank (session_list data); sm = index_map sl
         in Inr \<lparr>items_list = il, id_map = im, next_agg = fold (agg_step im) data [],
                 sessions_list = sl, session_map = sm,
                 contains = fold (pair_step sm im) data []\<rparr>))"
proof (cases "list_all (\<lambda>r. r ''item_id'' \<noteq> None) data")
  case False
  then have "\<exists>r \<in> set data. r ''item_id'' = None" by (simp add: list_all_iff)
  then show ?thesis using False by (simp add: build_def collect_items_fail)
next
  case True
  then have all: "\<forall>r \<in> set data. r ''item_id'' \<noteq> None" by (simp add: list_all_iff)
  from collect_items_ok [OF all, of "[]"] obtain xs where
    xs: "for_each items_step data [] = Inr xs" "set xs = item_idents data" "distinct xs"
    by auto
  have sx: "sorted_py xs = sorted_py (item_list data)"
    using xs by (intro sorted_py_unique) (simp_all add: set_item_list distinct_item_list)
  from collect_sessions [of data "[]"] obtain ys where
    ys: "for_each sessions_step data [] = Inr ys" "set ys = session_idents data" "distinct ys"
    by auto
  have sy: "sorted_py ys = sorted_py (session_list data)"
    using ys by (intro sorted_py_unique) (simp_all add: set_session_list distinct_session_list)
  show ?thesis
  proof (cases "comparable (item_list data)")
    case False
    then show ?thesis using True xs(1) sx by (simp add: build_def sorted_py_def)
  next
    case ci: True
    let ?il = "sort_key sort_rank (item_list data)"
    let ?im = "index_map ?il"
    have il: "set ?il = item_idents data" by (simp add: set_item_list)
    have "\<And>r a. r \<in> set data \<Longrightarrow> next_step ?im r a = Inr (agg_step ?im r a)"
      using all event_key_covered [OF _ _ il] by (intro next_step_agg_step) auto
    then have na: "for_each (next_step ?im) data [] = Inr (fold (agg_step ?im) data [])"
      by (rule for_each_total)
    show ?thesis
    proof (cases "comparable (session_list data)")
      case False
      then show ?thesis
        using True ci xs(1) sx na ys(1) sy by (simp add: build_def sorted_py_def)
    next
      case cs: True
      let ?sl = "sort_key sort_rank (session_list data)"
      let ?sm = "index_map ?sl"
      have sl: "set ?sl = session_idents data" by (simp add: set_session_list)
      have "\<And>r c. r \<in> set data \<Longrightarrow> contains_step ?sm ?im r c = Inr (pair_step ?sm ?im r c)"
        using all event_pair_covered [OF _ _ il sl] by (intro contains_step_pair_step) auto
      then have "for_each (contains_step ?sm ?im) data [] = Inr (fold (pair_step ?sm ?im) data [])"
        by (rule for_each_total)
      then show ?thesis
        using True ci cs xs(1) sx na ys(1) sy by (simp add: build_def sorted_py_def Let_def)
    qed
  qed
qed

lemma build_Inr:
  assumes "build data = Inr g"
  shows "list_all (\<lambda>r. r ''item_id'' \<noteq> None) data"
    and "comparable (item_list data)" and "comparable (session_list data)"
    and "items_list g = sort_key sort_rank (item_list data)"
    and "id_map g = index_map (items_list g)"
    and "sessions_list g = sort_key sort_rank (session_list data)"
    and "session_map g = index_map (sessions_list g)"
    and "next_agg g = fold (agg_step (id_map g)) data []"
    and "contains g = fold (pair_step (session_map g) (id_map g)) data []"
  using assms unfolding build_char by (auto simp add: Let_def split: if_splits)

lemma build_well_formed: "well_formed data \<longleftrightarrow> (\<exists>g. build data = Inr g)"
  unfolding build_char well_formed_def item_list_def [symmetric] session_list_def [symmetric]
  by (simp add: Let_def)

lemma build_items:
  assumes "build data = Inr g"
  shows "set (items_list g) = item_idents data" and "distinct (items_list g)"
    and "sorted (map sort_rank (items_list g))"
  using build_Inr(4) [OF assms] by (simp_all add: set_item_list distinct_item_list)

lemma build_sessions:
  assumes "build data = Inr g"
  shows "set (sessions_list g) = session_idents data" and "distinct (sessions_list g)"
    and "sorted (map sort_rank (sessions_list g))"
  using build_Inr(6) [OF assms] by (simp_all add: set_session_list distinct_session_list)

lemma length_filter_mset:
  "mset xs = mset ys \<Longrightarrow> length (filter P xs) = length (filter P ys)"
proof -
  assume "mset xs = mset ys"
  then have "filter_mset P (mset xs) = filter_mset P (mset ys)" by simp
  then have "mset (filter P xs) = mset (filter P ys)" by simp
  then show ?thesis by (rule mset_eq_length)
qed

lemma item_list_perm:
  assumes "set data' = set data"
  shows "sort_key sort_rank (item_list data') = sort_key sort_rank (item_list data)"
    and "comparable (item_list data') = comparable (item_list data)"
proof -
  have "set (item_list data') = set (item_list data)"
    using assms by (simp add: set_item_list item_idents_def set_field_values)
  then show "sort_key sort_rank (item_list data') = sort_key sort_rank (item_list data)"
    and "comparable (item_list data') = comparable (item_list data)"
    by (simp_all add: sort_rank_unique comparable_set distinct_item_list)
qed

lemma session_list_perm:
  assumes "set data' = set data"
  shows "sort_key sort_rank (session_list data') = sort_key sort_rank (session_list data)"
    and "comparable (session_list data') = comparable (session_list data)"
proof -
  have "set (session_list data') = set (session_list data)"
    using assms by (simp add: set_session_list session_idents_def set_field_values)
  then show "sort_key sort_rank (session_list data') = sort_key sort_rank (session_list data)"
    and "comparable (session_list data') = comparable (session_list data)"
    by (simp_all add: sort_rank_unique comparable_set distinct_session_list)
qed

lemma build_perm_Inl:
  assumes "mset data' = mset data" and "build data = Inl e"
  shows "build data' = Inl e"
proof -
  have s: "set data' = set data" using assms(1) by (rule mset_eq_setD)
  have "list_all (\<lambda>r. r ''item_id'' \<noteq> None) data' = list_all (\<lambda>r. r ''item_id'' \<noteq> None) data"
    using s by (simp add: list_all_iff)
  with assms(2) show ?thesis
    unfolding build_char item_list_perm(2) [OF s] session_list_perm(2) [OF s]
    by (simp add: Let_def split: if_splits)
qed

lemma build_perm_Inr:
  assumes "mset data' = mset data" and "build data = Inr g"
  shows "\<exists>g'. build data' = Inr g' \<and> items_list g' = items_list g \<and> id_map g' = id_map g \<and>
           sessions_list g' = sessions_list g \<and> session_map g' = session_map g"
proof -
  have s: "set data' = set data" using assms(1) by (rule mset_eq_setD)
  have a: "list_all (\<lambda>r. r ''item_id'' \<noteq> None) data' = list_all (\<lambda>r. r ''item_id'' \<noteq> None) data"
    using s by (simp add: list_all_iff)
  note b = build_Inr [OF assms(2)]
  have "\<exists>g'. build data' = Inr g'"
    using b(1-3) unfolding build_char a item_list_perm(2) [OF s] session_list_perm(2) [OF s]
    by (simp add: Let_def)
  then obtain g' where g': "build data' = Inr g'" by blast
  note c = build_Inr [OF g']
  have "items_list g' = items_list g"
    using b(4) c(4) item_list_perm(1) [OF s] by simp
  moreover have "sessions_list g' = sessions_list g"
    using b(6) c(6) session_list_perm(1) [OF s] by simp
  ultimately show ?thesis using g' b(5,7) c(5,7) by simp
qed

section \<open>The bulk builder: claims\<close>

lemmas build_eval = build_def ev_def items_step_def next_step_def sessions_step_def
  contains_step_def getitem_def dict_get_def sorted_py_def comparable_def index_map_def
  enumerate_eq_zip lookup_def bump_weight_def add_session_def touch_def default_edge_def
  str_int_def Let_def

lemma for_each_map_cong:
  "map f xs = map g ys \<Longrightarrow> for_each f xs s = for_each g ys s"
proof (induction xs arbitrary: ys s)
  case Nil
  then show ?case by simp
next
  case (Cons x xs)
  then obtain y ys' where ys: "ys = y # ys'" "f x = g y" "map f xs = map g ys'"
    by (cases ys) auto
  then show ?case using Cons.IH [of ys'] by (simp split: sum.splits)
qed

text \<open>
  An event without the \<open>item_id\<close> key ends the script with \<open>KeyError('item_id')\<close>, raised
  by \<open>r["item_id"]\<close> in the first loop, whatever else the input holds.
\<close>

lemma absent_item_id:
  assumes "r \<in> set data" and "r ''item_id'' = None"
  shows "build data = Inl (KeyError (JStr ''item_id''))"
  using assms by (auto simp add: build_char list_all_iff)

text \<open>
  Claim C9. The script fails as claimed for a record without the \<open>item_id\<close> key, and not
  for a record whose \<open>item_id\<close> is \<open>null\<close>: on the input \<open>[{"item_id": null}]\<close> it raises
  nothing, gives \<open>None\<close> the ID 0 and writes the key \<open>null\<close> to the lookup index.
\<close>

theorem null_item_id_accepted:
  "build no_item = Inl (KeyError (JStr ''item_id'')) \<and>
   build null_item = Inr null_item_graph \<and>
   id_map null_item_graph = [(JNull, 0)] \<and>
   item_to_id (lookup_json null_item_graph) = [(''null'', 0)]"
  by (simp add: no_item_def null_item_def null_item_graph_def build_eval lookup_json_def)

lemma falsy_dict_get:
  "\<not> truthy v \<Longrightarrow> truthy (dict_get (r(k \<mapsto> v)) k') = truthy (dict_get (r(k := None)) k')"
  by (simp add: dict_get_def)

lemma falsy_getitem:
  "k' \<noteq> k \<Longrightarrow> getitem (r(k \<mapsto> v)) k' = getitem (r(k := None)) k'"
  by (simp add: getitem_def)

lemma falsy_dict_get_other:
  "k' \<noteq> k \<Longrightarrow> dict_get (r(k \<mapsto> v)) k' = dict_get (r(k := None)) k'"
  by (simp add: dict_get_def)

lemma falsy_next_steps:
  assumes "\<not> truthy v"
  shows "items_step (r(''next_item_id'' \<mapsto> v)) = items_step (r(''next_item_id'' := None))"
    and "next_step im (r(''next_item_id'' \<mapsto> v)) = next_step im (r(''next_item_id'' := None))"
    and "sessions_step (r(''next_item_id'' \<mapsto> v)) = sessions_step (r(''next_item_id'' := None))"
    and "contains_step sm im (r(''next_item_id'' \<mapsto> v)) =
         contains_step sm im (r(''next_item_id'' := None))"
  using assms
  by (simp_all add: fun_eq_iff items_step_def next_step_def sessions_step_def
      contains_step_def dict_get_def getitem_def cong: if_cong)

lemma falsy_session_steps:
  assumes "\<not> truthy v"
  shows "items_step (r(''session_id'' \<mapsto> v)) = items_step (r(''session_id'' := None))"
    and "next_step im (r(''session_id'' \<mapsto> v)) = next_step im (r(''session_id'' := None))"
    and "sessions_step (r(''session_id'' \<mapsto> v)) = sessions_step (r(''session_id'' := None))"
    and "contains_step sm im (r(''session_id'' \<mapsto> v)) =
         contains_step sm im (r(''session_id'' := None))"
  using assms
  by (simp_all add: fun_eq_iff items_step_def next_step_def sessions_step_def
      contains_step_def dict_get_def getitem_def cong: if_cong)

lemma build_steps_cong:
  assumes "items_step r = items_step r'" "\<And>im. next_step im r = next_step im r'"
    "sessions_step r = sessions_step r'"
    "\<And>sm im. contains_step sm im r = contains_step sm im r'"
  shows "build (pre @ r # post) = build (pre @ r' # post)"
proof -
  have "for_each items_step (pre @ r # post) = for_each items_step (pre @ r' # post)"
    "\<And>im. for_each (next_step im) (pre @ r # post) = for_each (next_step im) (pre @ r' # post)"
    "for_each sessions_step (pre @ r # post) = for_each sessions_step (pre @ r' # post)"
    "\<And>sm im. for_each (contains_step sm im) (pre @ r # post) =
       for_each (contains_step sm im) (pre @ r' # post)"
    using assms by (auto simp add: fun_eq_iff intro!: for_each_map_cong)
  then show ?thesis by (simp add: build_def)
qed

text \<open>
  Claim C10. A \<open>next_item_id\<close> or \<open>session_id\<close> that is present but falsy (\<open>0\<close>, the
  empty string, or \<open>null\<close>) is treated exactly as an absent field: the script computes the
  same values, or raises the same exception, as on the list in which the key is removed from
  that event. The event's \<open>next_item_id\<close> adds no identifier to the item set and no
  transition edge; its \<open>session_id\<close> adds no session, no evidence and no containment pair.
\<close>

theorem falsy_is_absent:
  assumes "v = JInt 0 \<or> v = JStr [] \<or> v = JNull"
  shows
    "build (pre @ r(''next_item_id'' \<mapsto> v) # post) =
       build (pre @ r(''next_item_id'' := None) # post) \<and>
     build (pre @ r(''session_id'' \<mapsto> v) # post) =
       build (pre @ r(''session_id'' := None) # post) \<and>
     items_step (r(''next_item_id'' \<mapsto> v)) items =
       bind (getitem r ''item_id'') (\<lambda>item. Inr (List.insert item items)) \<and>
     next_step im (r(''next_item_id'' \<mapsto> v)) a = Inr a \<and>
     event_key im (r(''next_item_id'' \<mapsto> v)) = None \<and>
     sessions_step (r(''session_id'' \<mapsto> v)) acc = Inr acc \<and>
     contains_step sm im (r(''session_id'' \<mapsto> v)) cs = Inr cs \<and>
     event_pair sm im (r(''session_id'' \<mapsto> v)) = None \<and>
     (\<forall>a'. next_step im (r(''session_id'' \<mapsto> v)) a = Inr a' \<longrightarrow>
        (\<forall>k. evidence_of a' k = evidence_of a k))"
proof -
  from assms have v: "\<not> truthy v" by auto
  have "build (pre @ r(''next_item_id'' \<mapsto> v) # post) =
       build (pre @ r(''next_item_id'' := None) # post)"
    by (intro build_steps_cong falsy_next_steps [OF v])
  moreover have "build (pre @ r(''session_id'' \<mapsto> v) # post) =
       build (pre @ r(''session_id'' := None) # post)"
    by (intro build_steps_cong falsy_session_steps [OF v])
  moreover have "items_step (r(''next_item_id'' \<mapsto> v)) items =
       bind (getitem r ''item_id'') (\<lambda>item. Inr (List.insert item items))"
    using v by (simp add: items_step_def dict_get_def getitem_def)
  moreover have "next_step im (r(''next_item_id'' \<mapsto> v)) a = Inr a"
    "event_key im (r(''next_item_id'' \<mapsto> v)) = None"
    "sessions_step (r(''session_id'' \<mapsto> v)) acc = Inr acc"
    "contains_step sm im (r(''session_id'' \<mapsto> v)) cs = Inr cs"
    "event_pair sm im (r(''session_id'' \<mapsto> v)) = None"
    using v
    by (simp_all add: next_step_def event_key_def sessions_step_def contains_step_def
        event_pair_def dict_get_def)
  moreover have "\<forall>k. evidence_of a' k = evidence_of a k"
    if "next_step im (r(''session_id'' \<mapsto> v)) a = Inr a'" for a'
    using that v
    by (auto simp add: next_step_def dict_get_def bind_def Let_def evidence_of_bump
        split: if_splits sum.splits)
  ultimately show ?thesis by blast
qed

theorem falsy_is_absent_witness:
  "(JInt 0 = JInt 0 \<or> JInt 0 = JStr [] \<or> JInt 0 = JNull) \<and>
   (JStr [] = JInt 0 \<or> JStr [] = JStr [] \<or> JStr [] = JNull) \<and>
   build [falsy_next] = build [falsy_next(''next_item_id'' := None)] \<and>
   build [falsy_next] =
     Inr \<lparr>items_list = [JInt 10], id_map = [(JInt 10, 0)], next_agg = [],
          sessions_list = [JInt 1], session_map = [(JInt 1, 0)], contains = [(0, 0)]\<rparr> \<and>
   build [falsy_session] = build [falsy_session(''session_id'' := None)] \<and>
   build [falsy_session] =
     Inr \<lparr>items_list = [JInt 10, JInt 20], id_map = [(JInt 10, 0), (JInt 20, 1)],
          next_agg = [((0, 1), \<lparr>weight = 1, sessions = []\<rparr>)],
          sessions_list = [], session_map = [], contains = []\<rparr>"
proof -
  have a: "JInt 0 = JInt 0 \<or> JInt 0 = JStr [] \<or> JInt 0 = JNull"
    and b: "JStr [] = JInt 0 \<or> JStr [] = JStr [] \<or> JStr [] = JNull"
    by simp_all
  have fn: "falsy_next = falsy_next(''next_item_id'' \<mapsto> JInt 0)"
    and fs: "falsy_session = falsy_session(''session_id'' \<mapsto> JStr [])"
    by (simp_all add: falsy_next_def falsy_session_def fun_eq_iff)
  have "build ([] @ falsy_next(''next_item_id'' \<mapsto> JInt 0) # []) =
        build ([] @ falsy_next(''next_item_id'' := None) # [])"
    by (rule falsy_is_absent [OF a, of "[]" falsy_next "[]", THEN conjunct1])
  then have 1: "build [falsy_next] = build [falsy_next(''next_item_id'' := None)]"
    using fn by simp
  have "build ([] @ falsy_session(''session_id'' \<mapsto> JStr []) # []) =
        build ([] @ falsy_session(''session_id'' := None) # [])"
    by (rule falsy_is_absent [OF b, of "[]" falsy_session "[]", THEN conjunct2, THEN conjunct1])
  then have 2: "build [falsy_session] = build [falsy_session(''session_id'' := None)]"
    using fs by simp
  have 3: "build [falsy_next] =
     Inr \<lparr>items_list = [JInt 10], id_map = [(JInt 10, 0)], next_agg = [],
          sessions_list = [JInt 1], session_map = [(JInt 1, 0)], contains = [(0, 0)]\<rparr>"
    by (simp add: falsy_next_def build_eval)
  have 4: "build [falsy_session] =
     Inr \<lparr>items_list = [JInt 10, JInt 20], id_map = [(JInt 10, 0), (JInt 20, 1)],
          next_agg = [((0, 1), \<lparr>weight = 1, sessions = []\<rparr>)],
          sessions_list = [], session_map = [], contains = []\<rparr>"
    by (simp add: falsy_session_def build_eval)
  from a b 1 2 3 4 show ?thesis by blast
qed

lemma build_scenario: "build scenario = Inr scenario_graph"
  by (simp add: scenario_def scenario_graph_def build_eval upt_conv_Cons)

lemma sorted_less_py:
  assumes c: "comparable xs" and d: "distinct xs" and s: "sorted (map sort_rank xs)"
    and ij: "i < j" "j < length xs"
  shows "less_py (xs ! i) (xs ! j)"
proof -
  have "sort_rank (xs ! i) \<le> sort_rank (xs ! j)"
    using s ij sorted_nth_mono [of "map sort_rank xs" i j] by simp
  moreover have "xs ! i \<noteq> xs ! j"
    using d ij by (simp add: nth_eq_iff_index_eq)
  then have "sort_rank (xs ! i) \<noteq> sort_rank (xs ! j)"
    using inj_sort_rank by (simp add: inj_eq)
  ultimately have lt: "sort_rank (xs ! i) < sort_rank (xs ! j)" by simp
  have mem: "xs ! i \<in> set xs" "xs ! j \<in> set xs" using ij by simp_all
  from c ij have "list_all is_int xs \<or> list_all is_str xs"
    by (auto simp add: comparable_def)
  then show ?thesis
  proof
    assume "list_all is_int xs"
    with mem obtain a b where "xs ! i = JInt a" "xs ! j = JInt b"
      by (metis is_int.elims(2) list_all_iff)
    with lt show ?thesis by simp
  next
    assume "list_all is_str xs"
    with mem obtain a b where "xs ! i = JStr a" "xs ! j = JStr b"
      by (metis is_str.elims(2) list_all_iff)
    with lt show ?thesis by simp
  qed
qed

lemma empty_agg [simp]:
  "weight_of [] k = 0" "evidence_of [] k = {}" "total_weight [] = 0" "deduplicated []"
  by (simp_all add: weight_of_def evidence_of_def total_weight_def deduplicated_def)

lemma build_items_comparable:
  assumes "build data = Inr g"
  shows "comparable (items_list g)"
proof -
  have "comparable (items_list g) = comparable (item_list data)"
    using build_Inr(4) [OF assms]
    by (intro comparable_set) (simp_all add: distinct_item_list)
  then show ?thesis using build_Inr(2) [OF assms] by simp
qed

text \<open>
  What the script computes for the item table, on every input: it builds its values exactly
  on the well-formed inputs; the table is over the \<open>item_id\<close> of every event and the
  \<open>next_item_id\<close> of every event where line 18 finds it true; ID \<open>i\<close> belongs to the
  \<open>i\<close>-th identifier in increasing order; a permutation of the input gives the same table.
\<close>

lemma build_item_table:
  "(well_formed data \<longrightarrow> (\<exists>g. build data = Inr g)) \<and>
   (\<forall>g. build data = Inr g \<longrightarrow>
      fst ` set (id_map g) = item_idents data \<and>
      length (id_map g) = card (item_idents data) \<and>
      id_map g = zip (items_list g) [0..<length (items_list g)] \<and>
      set (items_list g) = item_idents data \<and> distinct (items_list g) \<and>
      (\<forall>i j. i < j \<and> j < length (items_list g) \<longrightarrow>
         less_py (items_list g ! i) (items_list g ! j)) \<and>
      (\<forall>i < length (items_list g). map_of (id_map g) (items_list g ! i) = Some i) \<and>
      (\<forall>data'. mset data' = mset data \<longrightarrow>
         (\<exists>g'. build data' = Inr g' \<and> id_map g' = id_map g)))"
proof (intro conjI allI impI)
  assume "well_formed data"
  then show "\<exists>g. build data = Inr g" by (simp add: build_well_formed)
next
  fix g
  assume g: "build data = Inr g"
  note items = build_items [OF g]
  have im: "id_map g = zip (items_list g) [0..<length (items_list g)]"
    using build_Inr(5) [OF g] by (simp add: index_map_zip)
  show "id_map g = zip (items_list g) [0..<length (items_list g)]" by (rule im)
  show "fst ` set (id_map g) = item_idents data"
    using items(1) by (simp add: im flip: set_map)
  show "length (id_map g) = card (item_idents data)"
    using items(1,2) by (simp add: im distinct_card [symmetric])
  show "set (items_list g) = item_idents data" and "distinct (items_list g)"
    by (rule items)+
  show "less_py (items_list g ! i) (items_list g ! j)"
    if "i < j \<and> j < length (items_list g)" for i j
    using build_items_comparable [OF g] items(2,3) that by (intro sorted_less_py) simp_all
  show "map_of (id_map g) (items_list g ! i) = Some i" if "i < length (items_list g)" for i
    using that items(2) build_Inr(5) [OF g] by (simp add: map_of_index_map_nth)
  show "\<exists>g'. build data' = Inr g' \<and> id_map g' = id_map g"
    if "mset data' = mset data" for data'
    using build_perm_Inr [OF that g] by blast
qed

text \<open>
  Claim C1. The claim takes every \<open>next_item_id\<close> that is not null into the item set. The
  script tests the truth value of the field (line 18), and \<open>0\<close> is an identifier like any
  other (line 17 takes an \<open>item_id\<close> of \<open>0\<close>): on the input
  \<open>[{"item_id": 5, "next_item_id": 0}]\<close> the claimed set is \<open>{5, 0}\<close>, of cardinality 2,
  and the table has the one entry for \<open>5\<close>.
\<close>

theorem next_item_zero_left_out:
  "build zero_next = Inr zero_next_graph \<and>
   claimed_item_idents zero_next = {JInt 5, JInt 0} \<and>
   fst ` set (id_map zero_next_graph) = {JInt 5} \<and>
   length (id_map zero_next_graph) = 1 \<and>
   card (claimed_item_idents zero_next) = 2"
proof -
  have "build zero_next = Inr zero_next_graph"
    by (simp add: zero_next_def zero_next_graph_def build_eval)
  moreover have c: "claimed_item_idents zero_next = {JInt 5, JInt 0}"
    by (auto simp add: claimed_item_idents_def field_values_def zero_next_def)
  moreover have "card (claimed_item_idents zero_next) = 2"
    unfolding c by simp
  ultimately show ?thesis by (simp add: zero_next_graph_def)
qed

text \<open>
  What the script computes in the second and the third loop, on every input on which it
  raises nothing: the weights sum to the number of events whose \<open>next_item_id\<close> lines 18
  and 32 find true; the keys of \<open>next_agg\<close> are the ordered pairs of dense IDs of those
  events, each once; the weight of a pair counts the events of that pair; its evidence is
  the duplicate-free collection of \<open>str(session_id)\<close> over the events of that pair whose
  \<open>session_id\<close> line 39 finds true; and the containment set holds the resolved (session,
  item) pair of every event whose \<open>session_id\<close> line 52 finds true.
\<close>

lemma build_aggregation:
  assumes g: "build data = Inr g"
  shows
    "total_weight (next_agg g) =
       length (filter (\<lambda>r. truthy (dict_get r ''next_item_id'')) data) \<and>
     distinct (map fst (next_agg g)) \<and> deduplicated (next_agg g) \<and>
     fst ` set (next_agg g) = {k. \<exists>r \<in> set data. event_key (id_map g) r = Some k} \<and>
     (\<forall>k. weight_of (next_agg g) k =
        length (filter (\<lambda>r. event_key (id_map g) r = Some k) data)) \<and>
     (\<forall>k. evidence_of (next_agg g) k =
        (\<lambda>r. py_str (dict_get r ''session_id'')) `
          {r \<in> set data. event_key (id_map g) r = Some k \<and>
             truthy (dict_get r ''session_id'')}) \<and>
     set (contains g) =
       {p. \<exists>r \<in> set data. event_pair (session_map g) (id_map g) r = Some p} \<and>
     distinct (contains g) \<and>
     (\<forall>r \<in> set data.
        (truthy (dict_get r ''next_item_id'') \<longleftrightarrow> event_key (id_map g) r \<noteq> None) \<and>
        (truthy (dict_get r ''session_id'') \<longleftrightarrow>
           event_pair (session_map g) (id_map g) r \<noteq> None))"
proof -
  note b = build_Inr [OF g]
  have all: "\<forall>r \<in> set data. r ''item_id'' \<noteq> None"
    using b(1) by (simp add: list_all_iff)
  have il: "set (items_list g) = item_idents data"
    and sl: "set (sessions_list g) = session_idents data"
    using build_items(1) [OF g] build_sessions(1) [OF g] by simp_all
  have key: "truthy (dict_get r ''next_item_id'') \<longleftrightarrow> event_key (id_map g) r \<noteq> None"
    if "r \<in> set data" for r
    using event_key_covered [OF that _ il] all that unfolding b(5)
    by (auto simp add: event_key_def)
  have pair: "truthy (dict_get r ''session_id'') \<longleftrightarrow>
      event_pair (session_map g) (id_map g) r \<noteq> None"
    if "r \<in> set data" for r
    using event_pair_covered [OF that _ il sl] all that unfolding b(5,7)
    by (auto simp add: event_pair_def)
  have f: "filter (\<lambda>r. event_key (id_map g) r \<noteq> None) data =
      filter (\<lambda>r. truthy (dict_get r ''next_item_id'')) data"
    using key by (intro filter_cong) simp_all
  have "total_weight (next_agg g) =
      total_weight [] + length (filter (\<lambda>r. event_key (id_map g) r \<noteq> None) data)"
    unfolding b(8) by (rule fold_agg_step_total)
  then have total: "total_weight (next_agg g) =
       length (filter (\<lambda>r. truthy (dict_get r ''next_item_id'')) data)"
    unfolding f by simp
  have d: "distinct (map fst (next_agg g))" "deduplicated (next_agg g)"
    unfolding b(8)
    by (simp_all add: fold_agg_step_distinct fold_agg_step_deduplicated)
  have k: "fst ` set (next_agg g) = {k. \<exists>r \<in> set data. event_key (id_map g) r = Some k}"
    unfolding b(8) by (simp add: fold_agg_step_keys)
  have w: "weight_of (next_agg g) k =
        length (filter (\<lambda>r. event_key (id_map g) r = Some k) data)" for k
    unfolding b(8) by (simp add: fold_agg_step_weight)
  have e: "evidence_of (next_agg g) k =
        (\<lambda>r. py_str (dict_get r ''session_id'')) `
          {r \<in> set data. event_key (id_map g) r = Some k \<and>
             truthy (dict_get r ''session_id'')}" for k
    unfolding b(8) by (simp add: fold_agg_step_evidence)
  have c: "set (contains g) =
       {p. \<exists>r \<in> set data. event_pair (session_map g) (id_map g) r = Some p}"
    "distinct (contains g)"
    unfolding b(9) by (simp_all add: fold_pair_step_set fold_pair_step_distinct)
  show ?thesis
  proof (intro conjI allI ballI)
    show "total_weight (next_agg g) =
       length (filter (\<lambda>r. truthy (dict_get r ''next_item_id'')) data)" by (rule total)
    show "distinct (map fst (next_agg g))" "deduplicated (next_agg g)" by (rule d)+
    show "fst ` set (next_agg g) = {k. \<exists>r \<in> set data. event_key (id_map g) r = Some k}"
      by (rule k)
    show "weight_of (next_agg g) k =
        length (filter (\<lambda>r. event_key (id_map g) r = Some k) data)" for k by (rule w)
    show "evidence_of (next_agg g) k =
        (\<lambda>r. py_str (dict_get r ''session_id'')) `
          {r \<in> set data. event_key (id_map g) r = Some k \<and>
             truthy (dict_get r ''session_id'')}" for k by (rule e)
    show "set (contains g) =
       {p. \<exists>r \<in> set data. event_pair (session_map g) (id_map g) r = Some p}"
      "distinct (contains g)" by (rule c)+
    show "truthy (dict_get r ''next_item_id'') \<longleftrightarrow> event_key (id_map g) r \<noteq> None"
      if "r \<in> set data" for r using that by (rule key)
    show "truthy (dict_get r ''session_id'') \<longleftrightarrow>
        event_pair (session_map g) (id_map g) r \<noteq> None"
      if "r \<in> set data" for r using that by (rule pair)
  qed
qed

text \<open>
  Claim C2. The claim counts every event whose \<open>next_item_id\<close>, or \<open>session_id\<close>, is not
  null. The script tests the truth value of the field (lines 32, 39, 47 and 52), and \<open>0\<close>
  is an identifier like any other. On the input
  \<open>[{"session_id": 1, "item_id": 7, "next_item_id": 0},
    {"session_id": 1, "item_id": 0, "next_item_id": null}]\<close>
  the item \<open>0\<close> has an ID, one event has a \<open>next_item_id\<close> that is not null, and there is
  no transition edge: the weights sum to 0. On the input
  \<open>[{"session_id": 0, "item_id": 7, "next_item_id": 0}]\<close> the \<open>session_id\<close> is not null
  and the containment set is empty.
\<close>

theorem zero_identifier_dropped:
  "build zero_item = Inr zero_item_graph \<and>
   map_of (id_map zero_item_graph) (JInt 0) = Some 0 \<and>
   count_non_null ''next_item_id'' zero_item = 1 \<and>
   total_weight (next_agg zero_item_graph) = 0 \<and>
   build zero_ids = Inr zero_ids_graph \<and>
   count_non_null ''session_id'' zero_ids = 1 \<and>
   contains zero_ids_graph = []"
  by (simp add: zero_item_def zero_item_graph_def zero_ids_def zero_ids_graph_def build_eval
      count_non_null_def total_weight_def upt_conv_Cons)

text \<open>
  Claim C6. For a permutation of the input the script raises the same exception, or builds
  the same two identity tables, the same set of transition edges with the same weight and
  the same evidence set on each, and the same containment set.
\<close>

theorem aggregation_order_independent:
  assumes perm: "mset data' = mset data"
  shows
    "(\<forall>e. build data = Inl e \<longrightarrow> build data' = Inl e) \<and>
     (\<forall>g. build data = Inr g \<longrightarrow>
        (\<exists>g'. build data' = Inr g' \<and>
           id_map g' = id_map g \<and> session_map g' = session_map g \<and>
           fst ` set (next_agg g') = fst ` set (next_agg g) \<and>
           (\<forall>k. weight_of (next_agg g') k = weight_of (next_agg g) k) \<and>
           (\<forall>k. evidence_of (next_agg g') k = evidence_of (next_agg g) k) \<and>
           set (contains g') = set (contains g)))"
proof (intro conjI allI impI)
  fix e
  assume "build data = Inl e"
  with perm show "build data' = Inl e" by (rule build_perm_Inl)
next
  fix g
  assume g: "build data = Inr g"
  from build_perm_Inr [OF perm g] obtain g' where
    g': "build data' = Inr g'" and im: "id_map g' = id_map g"
    and sm: "session_map g' = session_map g"
    by blast
  have s: "set data' = set data" using perm by (rule mset_eq_setD)
  note b = build_Inr(8,9) [OF g] and b' = build_Inr(8,9) [OF g']
  have "fst ` set (next_agg g') = fst ` set (next_agg g)"
    unfolding b b' im by (simp add: fold_agg_step_keys s)
  moreover have "weight_of (next_agg g') k = weight_of (next_agg g) k" for k
    unfolding b b' im using length_filter_mset [OF perm]
    by (simp add: fold_agg_step_weight)
  moreover have "evidence_of (next_agg g') k = evidence_of (next_agg g) k" for k
    unfolding b b' im by (simp add: fold_agg_step_evidence s)
  moreover have "set (contains g') = set (contains g)"
    unfolding b b' im sm by (simp add: fold_pair_step_set s)
  ultimately show "\<exists>g'. build data' = Inr g' \<and>
           id_map g' = id_map g \<and> session_map g' = session_map g \<and>
           fst ` set (next_agg g') = fst ` set (next_agg g) \<and>
           (\<forall>k. weight_of (next_agg g') k = weight_of (next_agg g) k) \<and>
           (\<forall>k. evidence_of (next_agg g') k = evidence_of (next_agg g) k) \<and>
           set (contains g') = set (contains g)"
    using g' im sm by (intro exI [of _ g']) simp
qed

theorem aggregation_order_independent_witness:
  "mset (rev scenario) = mset scenario \<and>
   build scenario = Inr scenario_graph \<and>
   build (rev scenario) =
     Inr \<lparr>items_list = [JInt 10, JInt 20, JInt 30],
          id_map = [(JInt 10, 0), (JInt 20, 1), (JInt 30, 2)],
          next_agg = [((0, 2), \<lparr>weight = 1, sessions = [''2'']\<rparr>),
                      ((0, 1), \<lparr>weight = 1, sessions = [''1'']\<rparr>)],
          sessions_list = [JInt 1, JInt 2],
          session_map = [(JInt 1, 0), (JInt 2, 1)],
          contains = [(0, 0), (0, 1), (1, 0)]\<rparr> \<and>
   (\<exists>g'. build (rev scenario) = Inr g' \<and>
      id_map g' = id_map scenario_graph \<and> session_map g' = session_map scenario_graph \<and>
      weight_of (next_agg g') (0, 1) = weight_of (next_agg scenario_graph) (0, 1) \<and>
      evidence_of (next_agg g') (0, 1) = evidence_of (next_agg scenario_graph) (0, 1) \<and>
      set (contains g') = set (contains scenario_graph))"
proof -
  have perm: "mset (rev scenario) = mset scenario" by simp
  from aggregation_order_independent [OF perm, THEN conjunct2, THEN spec, THEN mp,
      OF build_scenario]
  obtain g' where g': "build (rev scenario) = Inr g'"
    "id_map g' = id_map scenario_graph" "session_map g' = session_map scenario_graph"
    "\<forall>k. weight_of (next_agg g') k = weight_of (next_agg scenario_graph) k"
    "\<forall>k. evidence_of (next_agg g') k = evidence_of (next_agg scenario_graph) k"
    "set (contains g') = set (contains scenario_graph)"
    by blast
  then have "\<exists>g'. build (rev scenario) = Inr g' \<and>
      id_map g' = id_map scenario_graph \<and> session_map g' = session_map scenario_graph \<and>
      weight_of (next_agg g') (0, 1) = weight_of (next_agg scenario_graph) (0, 1) \<and>
      evidence_of (next_agg g') (0, 1) = evidence_of (next_agg scenario_graph) (0, 1) \<and>
      set (contains g') = set (contains scenario_graph)"
    by blast
  moreover have "build (rev scenario) =
     Inr \<lparr>items_list = [JInt 10, JInt 20, JInt 30],
          id_map = [(JInt 10, 0), (JInt 20, 1), (JInt 30, 2)],
          next_agg = [((0, 2), \<lparr>weight = 1, sessions = [''2'']\<rparr>),
                      ((0, 1), \<lparr>weight = 1, sessions = [''1'']\<rparr>)],
          sessions_list = [JInt 1, JInt 2],
          session_map = [(JInt 1, 0), (JInt 2, 1)],
          contains = [(0, 0), (0, 1), (1, 0)]\<rparr>"
    by (simp add: scenario_def build_eval upt_conv_Cons)
  ultimately show ?thesis using perm build_scenario by blast
qed

section \<open>The bulk builder: the exported files\<close>

lemma fold_f_write: "fold (\<lambda>x. f_write (row x)) xs f = f @ concat (map row xs)"
  by (induction xs arbitrary: f) (simp_all add: f_write_def)


lemma agg_entry:
  assumes "distinct (map fst a)" and "(k, e) \<in> set a"
  shows "weight_of a k = weight e" and "evidence_of a k = set (sessions e)"
  using assms by (simp_all add: weight_of_def evidence_of_def)

text \<open>
  Claim C8, as amended. The items file is the header \<open>:ID(Item)<TAB>:LABEL\<close> and one row
  \<open>i<TAB>Item\<close> for each entry of the item table, with its ID \<open>i\<close>, in the order
  \<open>0..N-1\<close>. The next file is the header
  \<open>:START_ID(Item)<TAB>:END_ID(Item)<TAB>weight:int<TAB>sessions:string[]\<close> and one row for
  each transition edge: the two IDs, the weight, and the evidence strings joined with \<open>;\<close>
  in some order, each once, with no escaping (an evidence string \<open>a;b\<close> is written like
  the two strings \<open>a\<close> and \<open>b\<close>). Every line ends with a newline.
\<close>

theorem exported_files:
  assumes g: "build data = Inr g"
  shows
    "items_csv g =
       '':ID(Item)'' @ [tab] @ '':LABEL'' @ [nl] @
       concat (map (\<lambda>(x, i). str_nat i @ [tab] @ ''Item'' @ [nl]) (id_map g)) \<and>
     map snd (id_map g) = [0..<length (id_map g)] \<and>
     next_csv g =
       '':START_ID(Item)'' @ [tab] @ '':END_ID(Item)'' @ [tab] @ ''weight:int'' @ [tab] @
       ''sessions:string[]'' @ [nl] @
       concat (map (\<lambda>((i1, i2), e).
         str_nat i1 @ [tab] @ str_nat i2 @ [tab] @ str_nat (weight e) @ [tab] @
         join '';'' (sessions e) @ [nl]) (next_agg g)) \<and>
     distinct (map fst (next_agg g)) \<and>
     (\<forall>(k, e) \<in> set (next_agg g).
        weight e = weight_of (next_agg g) k \<and>
        set (sessions e) = evidence_of (next_agg g) k \<and> distinct (sessions e)) \<and>
     join '';'' [''a;b''] = join '';'' [''a'', ''b'']"
proof -
  note b = build_Inr [OF g]
  have im: "id_map g = zip (items_list g) [0..<length (items_list g)]"
    using b(5) by (simp add: index_map_zip)
  have "map (\<lambda>(x, i). str_nat i @ [tab] @ ''Item'' @ [nl]) (id_map g) =
      map ((\<lambda>i. str_nat i @ [tab] @ ''Item'' @ [nl]) \<circ> snd) (id_map g)"
    by (simp add: split_def comp_def)
  also have "\<dots> = map (\<lambda>i. str_nat i @ [tab] @ ''Item'' @ [nl]) [0..<length (items_list g)]"
    unfolding map_map [symmetric] by (simp add: im)
  finally have 1: "items_csv g =
       '':ID(Item)'' @ [tab] @ '':LABEL'' @ [nl] @
       concat (map (\<lambda>(x, i). str_nat i @ [tab] @ ''Item'' @ [nl]) (id_map g))"
    by (simp add: items_csv_def fold_f_write f_write_def)
  have 2: "map snd (id_map g) = [0..<length (id_map g)]"
    by (simp add: im)
  have 3: "next_csv g =
       '':START_ID(Item)'' @ [tab] @ '':END_ID(Item)'' @ [tab] @ ''weight:int'' @ [tab] @
       ''sessions:string[]'' @ [nl] @
       concat (map (\<lambda>((i1, i2), e).
         str_nat i1 @ [tab] @ str_nat i2 @ [tab] @ str_nat (weight e) @ [tab] @
         join '';'' (sessions e) @ [nl]) (next_agg g))"
    by (simp add: next_csv_def fold_f_write f_write_def next_row_def)
  have d: "distinct (map fst (next_agg g))" and dd: "deduplicated (next_agg g)"
    unfolding b(8) by (simp_all add: fold_agg_step_distinct fold_agg_step_deduplicated)
  have 5: "weight e = weight_of (next_agg g) k \<and>
        set (sessions e) = evidence_of (next_agg g) k \<and> distinct (sessions e)"
    if "(k, e) \<in> set (next_agg g)" for k e
    using that agg_entry [OF d that] dd by (auto simp add: deduplicated_def list_all_iff)
  have 6: "join '';'' [''a;b''] = join '';'' [''a'', ''b'']" by simp
  from 1 2 3 d 5 6 show ?thesis by (intro conjI ballI) auto
qed

theorem exported_files_witness:
  "build scenario = Inr scenario_graph \<and>
   items_csv scenario_graph =
     '':ID(Item)'' @ [tab] @ '':LABEL'' @ [nl] @
     ''0'' @ [tab] @ ''Item'' @ [nl] @
     ''1'' @ [tab] @ ''Item'' @ [nl] @
     ''2'' @ [tab] @ ''Item'' @ [nl] \<and>
   next_csv scenario_graph =
     '':START_ID(Item)'' @ [tab] @ '':END_ID(Item)'' @ [tab] @ ''weight:int'' @ [tab] @
     ''sessions:string[]'' @ [nl] @
     ''0'' @ [tab] @ ''1'' @ [tab] @ ''1'' @ [tab] @ ''1'' @ [nl] @
     ''0'' @ [tab] @ ''2'' @ [tab] @ ''1'' @ [tab] @ ''2'' @ [nl]"
proof -
  note t = exported_files [OF build_scenario]
  from t have "items_csv scenario_graph =
       '':ID(Item)'' @ [tab] @ '':LABEL'' @ [nl] @
       concat (map (\<lambda>(x, i). str_nat i @ [tab] @ ''Item'' @ [nl]) (id_map scenario_graph))"
    by (rule conjunct1)
  then have 1: "items_csv scenario_graph =
     '':ID(Item)'' @ [tab] @ '':LABEL'' @ [nl] @
     ''0'' @ [tab] @ ''Item'' @ [nl] @
     ''1'' @ [tab] @ ''Item'' @ [nl] @
     ''2'' @ [tab] @ ''Item'' @ [nl]"
    by (simp add: scenario_graph_def)
  from t have "next_csv scenario_graph =
       '':START_ID(Item)'' @ [tab] @ '':END_ID(Item)'' @ [tab] @ ''weight:int'' @ [tab] @
       ''sessions:string[]'' @ [nl] @
       concat (map (\<lambda>((i1, i2), e).
         str_nat i1 @ [tab] @ str_nat i2 @ [tab] @ str_nat (weight e) @ [tab] @
         join '';'' (sessions e) @ [nl]) (next_agg scenario_graph))"
    by (elim conjE)
  then have 2: "next_csv scenario_graph =
     '':START_ID(Item)'' @ [tab] @ '':END_ID(Item)'' @ [tab] @ ''weight:int'' @ [tab] @
     ''sessions:string[]'' @ [nl] @
     ''0'' @ [tab] @ ''1'' @ [tab] @ ''1'' @ [tab] @ ''1'' @ [nl] @
     ''0'' @ [tab] @ ''2'' @ [tab] @ ''1'' @ [tab] @ ''2'' @ [nl]"
    by (simp add: scenario_graph_def)
  from build_scenario 1 2 show ?thesis by (intro conjI)
qed

text \<open>
  The claim as it is worded gives the header lines \<open>ID<TAB>LABEL\<close> and
  \<open>START_ID<TAB>END_ID<TAB>weight:int<TAB>sessions:string[]\<close>; the files start with
  \<open>:ID(Item)<TAB>:LABEL\<close> and \<open>:START_ID(Item)<TAB>:END_ID(Item)<TAB>...\<close>.
\<close>

theorem exported_files_counterexample:
  "first_line (items_csv scenario_graph) = '':ID(Item)'' @ [tab] @ '':LABEL'' \<and>
   first_line (items_csv scenario_graph) \<noteq> spec_items_header \<and>
   first_line (next_csv scenario_graph) =
     '':START_ID(Item)'' @ [tab] @ '':END_ID(Item)'' @ [tab] @ ''weight:int'' @ [tab] @
     ''sessions:string[]'' \<and>
   first_line (next_csv scenario_graph) \<noteq> spec_next_header"
  by (simp add: first_line_def items_csv_def next_csv_def f_write_def fold_f_write
      spec_items_header_def spec_next_header_def tab_def nl_def)

section \<open>The bulk builder: reading the files back\<close>




declare str_nat.simps [simp del]






































lemma set_join: "set (join sep ss) \<subseteq> set sep \<union> \<Union> (set ` set ss)"
  by (induction sep ss rule: join.induct) auto























end
